theory Spec2Isabelle
  imports Main "HOL-Library.Word"
begin

unbundle bit_operations_syntax

section \<open>The reactor core of deps/uv/src/unix/core.c\<close>

text \<open>
  The theory embeds the handle close protocol, the pending queue, the watcher table, the
  reactor driver and the descriptor helpers of \<^verbatim>\<open>core.c\<close>. C objects live in a store
  indexed by address (a \<^typ>\<open>nat\<close>); a pointer is a \<^typ>\<open>nat option\<close> with \<open>None\<close> for
  \<^verbatim>\<open>NULL\<close>. A failed \<^verbatim>\<open>assert\<close>, an \<^verbatim>\<open>abort()\<close> and an access outside an array are values
  of type \<open>error\<close>; a loop that need not terminate is a partial function into \<open>option\<close>,
  so that \<open>None\<close> means that the call does not return.
\<close>

subsection \<open>Data\<close>

datatype error = AssertionFailed | Abort | MemoryFault

text \<open>The tags of \<^verbatim>\<open>uv_handle_type\<close> in the order of \<^verbatim>\<open>uv.h\<close>.\<close>

datatype uv_handle_type =
    UV_UNKNOWN_HANDLE | UV_ASYNC | UV_CHECK | UV_FS_EVENT | UV_FS_POLL | UV_HANDLE
  | UV_IDLE | UV_NAMED_PIPE | UV_POLL | UV_PREPARE | UV_PROCESS | UV_STREAM | UV_TCP
  | UV_TIMER | UV_TTY | UV_UDP | UV_SIGNAL | UV_FILE | UV_HANDLE_TYPE_MAX

record uv_handle_t =
  flags :: "32 word"
  handle_type :: uv_handle_type
  close_cb :: "nat option"
  next_closing :: "nat option"

record uv__io_t =
  cb :: nat
  fd :: int
  events :: "32 word"
  pevents :: "32 word"

text \<open>
  The loop together with the objects that point back to it. An intrusive \<^verbatim>\<open>QUEUE\<close> is the
  list of the addresses of its members, head first; the array \<^verbatim>\<open>watchers\<close> is \<open>None\<close> while
  the pointer is \<^verbatim>\<open>NULL\<close>.
\<close>

record uv_loop_t =
  handles :: "nat \<Rightarrow> uv_handle_t"
  ios :: "nat \<Rightarrow> uv__io_t"
  closing_handles :: "nat option"
  stop_flag :: "32 word"
  loopId :: int
  active_handles :: "32 word"
  fakeHandle :: "32 word"
  active_reqs :: "nat list"
  idle_handles :: "nat list"
  wq :: "nat list"
  pending_queue :: "nat list"
  watcher_queue :: "nat list"
  watchers :: "nat option list option"
  nwatchers :: "32 word"
  nfds :: "32 word"

text \<open>
  What a callback does to the core: the calls it makes into it. \<open>ActClose h c\<close> is
  \<^verbatim>\<open>uv_close(h, c)\<close>, \<open>ActFeed w\<close> is \<^verbatim>\<open>uv__io_feed(loop, w)\<close>.
\<close>

datatype action = ActClose nat "nat option" | ActFeed nat

text \<open>
  The collaborators of \<^verbatim>\<open>core.c\<close> that live in other files: the close hook of each handle
  type, the teardown helpers of \<^verbatim>\<open>uv__finish_close\<close>, the phases of a tick, the timer
  subsystem, the clock and the allocator. Callbacks are function pointers (a \<^typ>\<open>nat\<close>); the
  tables \<open>close_cbs\<close> and \<open>io_cbs\<close> give the code behind each pointer, as the list of the
  calls it makes when invoked with the given arguments.
\<close>

record env =
  close_hook :: "uv_handle_type \<Rightarrow> nat \<Rightarrow> uv_loop_t \<Rightarrow> uv_loop_t"
  stream_destroy :: "nat \<Rightarrow> uv_loop_t \<Rightarrow> uv_loop_t"
  udp_finish_close :: "nat \<Rightarrow> uv_loop_t \<Rightarrow> uv_loop_t"
  handle_unref :: "nat \<Rightarrow> uv_loop_t \<Rightarrow> uv_loop_t"
  handle_queue_remove :: "nat \<Rightarrow> uv_loop_t \<Rightarrow> uv_loop_t"
  close_cbs :: "nat \<Rightarrow> nat \<Rightarrow> action list"
  io_cbs :: "nat \<Rightarrow> nat \<Rightarrow> 32 word \<Rightarrow> action list"
  update_time :: "uv_loop_t \<Rightarrow> uv_loop_t"
  run_timers :: "uv_loop_t \<Rightarrow> uv_loop_t"
  run_idle :: "uv_loop_t \<Rightarrow> uv_loop_t"
  run_prepare :: "uv_loop_t \<Rightarrow> uv_loop_t"
  run_check :: "uv_loop_t \<Rightarrow> uv_loop_t"
  io_poll_jx :: "uv_loop_t \<Rightarrow> int \<Rightarrow> int \<Rightarrow> uv_loop_t"
  next_timeout :: "uv_loop_t \<Rightarrow> int"
  trigger_sync :: "nat \<Rightarrow> int \<Rightarrow> uv_loop_t \<Rightarrow> uv_loop_t"
  hrtime :: "nat \<Rightarrow> 64 word"
  realloc :: "nat option list option \<Rightarrow> nat \<Rightarrow> nat option list option"

subsection \<open>Constants of the headers\<close>

text \<open>
  Modelled from the spec: \<^verbatim>\<open>internal.h\<close> and \<^verbatim>\<open>uv-common.h\<close> are not among the sources.
  The flag bits \<^verbatim>\<open>UV_CLOSING\<close> and \<^verbatim>\<open>UV_CLOSED\<close> of the handle flags, with the values
  of libuv's unix port.
\<close>

definition UV_CLOSING :: "32 word" where
  "UV_CLOSING = 1"

definition UV_CLOSED :: "32 word" where
  "UV_CLOSED = 2"

text \<open>
  Modelled from the spec: the poll event bits of \<^verbatim>\<open>internal.h\<close> (readable, writable), with
  their Linux values.
\<close>

definition UV__POLLIN :: "32 word" where
  "UV__POLLIN = 1"

definition UV__POLLOUT :: "32 word" where
  "UV__POLLOUT = 4"

definition INT_MAX :: int where
  "INT_MAX = 2147483647"

subsection \<open>Closing handles\<close>

definition upd_handle :: "nat \<Rightarrow> (uv_handle_t \<Rightarrow> uv_handle_t) \<Rightarrow> uv_loop_t \<Rightarrow> uv_loop_t" where
  "upd_handle h f l = l\<lparr>handles := (handles l)(h := f (handles l h))\<rparr>"

definition uv__make_close_pending :: "nat \<Rightarrow> uv_loop_t \<Rightarrow> error + uv_loop_t" where
  "uv__make_close_pending h l =
     (if flags (handles l h) AND UV_CLOSING = 0 then Inl AssertionFailed
      else if flags (handles l h) AND UV_CLOSED \<noteq> 0 then Inl AssertionFailed
      else Inr ((upd_handle h (\<lambda>x. x\<lparr>next_closing := closing_handles l\<rparr>) l)
                  \<lparr>closing_handles := Some h\<rparr>))"

definition uv_close :: "env \<Rightarrow> nat \<Rightarrow> nat option \<Rightarrow> uv_loop_t \<Rightarrow> error + uv_loop_t" where
  "uv_close e h c l =
     (if flags (handles l h) AND (UV_CLOSING OR UV_CLOSED) \<noteq> 0 then Inl AssertionFailed
      else
        let l1 = upd_handle h (\<lambda>x. x\<lparr>flags := flags x OR UV_CLOSING, close_cb := c\<rparr>) l
        in case handle_type (handles l1 h) of
             UV_NAMED_PIPE \<Rightarrow> uv__make_close_pending h (close_hook e UV_NAMED_PIPE h l1)
           | UV_TTY \<Rightarrow> uv__make_close_pending h (close_hook e UV_STREAM h l1)
           | UV_TCP \<Rightarrow> uv__make_close_pending h (close_hook e UV_TCP h l1)
           | UV_UDP \<Rightarrow> uv__make_close_pending h (close_hook e UV_UDP h l1)
           | UV_PREPARE \<Rightarrow> uv__make_close_pending h (close_hook e UV_PREPARE h l1)
           | UV_CHECK \<Rightarrow> uv__make_close_pending h (close_hook e UV_CHECK h l1)
           | UV_IDLE \<Rightarrow> uv__make_close_pending h (close_hook e UV_IDLE h l1)
           | UV_ASYNC \<Rightarrow> uv__make_close_pending h (close_hook e UV_ASYNC h l1)
           | UV_TIMER \<Rightarrow> uv__make_close_pending h (close_hook e UV_TIMER h l1)
           | UV_PROCESS \<Rightarrow> uv__make_close_pending h (close_hook e UV_PROCESS h l1)
           | UV_FS_EVENT \<Rightarrow> uv__make_close_pending h (close_hook e UV_FS_EVENT h l1)
           | UV_POLL \<Rightarrow> uv__make_close_pending h (close_hook e UV_POLL h l1)
           | UV_FS_POLL \<Rightarrow> uv__make_close_pending h (close_hook e UV_FS_POLL h l1)
           | UV_SIGNAL \<Rightarrow> Inr (close_hook e UV_SIGNAL h l1)
           | _ \<Rightarrow> Inl AssertionFailed)"

definition uv__io_feed :: "uv_loop_t \<Rightarrow> nat \<Rightarrow> uv_loop_t" where
  "uv__io_feed l w =
     (if w \<notin> set (pending_queue l) then l\<lparr>pending_queue := pending_queue l @ [w]\<rparr> else l)"

text \<open>Running the code of a callback: its calls in order, stopping at the first abort.\<close>

fun exec :: "env \<Rightarrow> action list \<Rightarrow> uv_loop_t \<Rightarrow> error + uv_loop_t" where
  "exec e [] l = Inr l"
| "exec e (ActClose h c # as) l =
     (case uv_close e h c l of Inl x \<Rightarrow> Inl x | Inr l' \<Rightarrow> exec e as l')"
| "exec e (ActFeed w # as) l = exec e as (uv__io_feed l w)"

text \<open>The \<^verbatim>\<open>switch\<close> on the handle type in \<^verbatim>\<open>uv__finish_close\<close>.\<close>

definition finish_switch :: "env \<Rightarrow> nat \<Rightarrow> uv_loop_t \<Rightarrow> error + uv_loop_t" where
  "finish_switch e h l =
     (case handle_type (handles l h) of
        UV_PREPARE \<Rightarrow> Inr l
      | UV_CHECK \<Rightarrow> Inr l
      | UV_IDLE \<Rightarrow> Inr l
      | UV_ASYNC \<Rightarrow> Inr l
      | UV_TIMER \<Rightarrow> Inr l
      | UV_PROCESS \<Rightarrow> Inr l
      | UV_FS_EVENT \<Rightarrow> Inr l
      | UV_FS_POLL \<Rightarrow> Inr l
      | UV_POLL \<Rightarrow> Inr l
      | UV_SIGNAL \<Rightarrow> Inr l
      | UV_NAMED_PIPE \<Rightarrow> Inr (stream_destroy e h l)
      | UV_TCP \<Rightarrow> Inr (stream_destroy e h l)
      | UV_TTY \<Rightarrow> Inr (stream_destroy e h l)
      | UV_UDP \<Rightarrow> Inr (udp_finish_close e h l)
      | _ \<Rightarrow> Inl AssertionFailed)"

definition uv__finish_close :: "env \<Rightarrow> nat \<Rightarrow> uv_loop_t \<Rightarrow> error + uv_loop_t" where
  "uv__finish_close e h l =
     (if flags (handles l h) AND UV_CLOSING = 0 then Inl AssertionFailed
      else if flags (handles l h) AND UV_CLOSED \<noteq> 0 then Inl AssertionFailed
      else
        case finish_switch e h (upd_handle h (\<lambda>x. x\<lparr>flags := flags x OR UV_CLOSED\<rparr>) l) of
          Inl x \<Rightarrow> Inl x
        | Inr l2 \<Rightarrow>
            let l3 = handle_queue_remove e h (handle_unref e h l2)
            in (case close_cb (handles l3 h) of
                  None \<Rightarrow> Inr l3
                | Some c \<Rightarrow> exec e (close_cbs e c h) l3))"

text \<open>
  The loop of \<^verbatim>\<open>uv__run_closing_handles\<close>. The third argument collects the handles
  handed to \<^verbatim>\<open>uv__finish_close\<close>, in call order; it is returned with the loop.
\<close>

partial_function (option) closing_loop ::
  "env \<Rightarrow> nat option \<Rightarrow> nat list \<Rightarrow> uv_loop_t \<Rightarrow> (error + uv_loop_t \<times> nat list) option" where
  "closing_loop e p done l =
     (case p of
        None \<Rightarrow> Some (Inr (l, done))
      | Some h \<Rightarrow>
          let q = next_closing (handles l h)
          in (case uv__finish_close e h l of
                Inl x \<Rightarrow> Some (Inl x)
              | Inr l' \<Rightarrow> closing_loop e q (done @ [h]) l'))"

definition uv__run_closing_handles ::
  "env \<Rightarrow> uv_loop_t \<Rightarrow> (error + uv_loop_t \<times> nat list) option" where
  "uv__run_closing_handles e l =
     closing_loop e (closing_handles l) [] (l\<lparr>closing_handles := None\<rparr>)"

subsection \<open>Liveness and the poll timeout\<close>

text \<open>
  Modelled from the spec: the macros \<^verbatim>\<open>uv__has_active_handles\<close> and
  \<^verbatim>\<open>uv__has_active_reqs\<close> of \<^verbatim>\<open>uv-common.h\<close> are not among the sources. The spec has
  the poll timeout 0 when the loop is "not alive", and a loop alive when its "active
  handle count exceeds the loop's implicit fake-handle bias" or it has active requests;
  so the first macro measures the count of active handles against \<^verbatim>\<open>fakeHandle\<close>, the
  comparison that \<^verbatim>\<open>uv__loop_alive\<close> below spells out, and the second tests that the
  queue of active requests is not empty.
\<close>

definition uv__has_active_handles :: "uv_loop_t \<Rightarrow> bool" where
  "uv__has_active_handles l = (fakeHandle l < active_handles l)"

definition uv__has_active_reqs :: "uv_loop_t \<Rightarrow> bool" where
  "uv__has_active_reqs l = (active_reqs l \<noteq> [])"

definition uv_backend_timeout :: "env \<Rightarrow> uv_loop_t \<Rightarrow> int" where
  "uv_backend_timeout e l =
     (if stop_flag l \<noteq> 0 then 0
      else if \<not> uv__has_active_handles l \<and> \<not> uv__has_active_reqs l then 0
      else if idle_handles l \<noteq> [] then 0
      else if closing_handles l \<noteq> None then 0
      else next_timeout e l)"

definition uv__loop_alive :: "uv_loop_t \<Rightarrow> bool" where
  "uv__loop_alive l =
     (fakeHandle l < active_handles l \<or> uv__has_active_reqs l \<or> closing_handles l \<noteq> None)"

subsection \<open>The state of the close protocol\<close>

text \<open>
  The predicates below describe states; they are not part of the program. A handle is
  closing or closed when the flag bit is set. \<open>clist l p xs\<close> reads the chain that starts
  at pointer \<open>p\<close> and follows \<^verbatim>\<open>next_closing\<close> to \<^verbatim>\<open>NULL\<close> as the list \<open>xs\<close>;
  \<open>closing_list l xs\<close> says that the loop's closing list is \<open>xs\<close>, head first, and that
  its members are closing and not yet closed, as the assertions of
  \<^verbatim>\<open>uv__make_close_pending\<close> demand of every handle that is put on it.
\<close>

definition flag_closing :: "uv_loop_t \<Rightarrow> nat \<Rightarrow> bool" where
  "flag_closing l h = (flags (handles l h) AND UV_CLOSING \<noteq> 0)"

definition flag_closed :: "uv_loop_t \<Rightarrow> nat \<Rightarrow> bool" where
  "flag_closed l h = (flags (handles l h) AND UV_CLOSED \<noteq> 0)"

fun clist :: "uv_loop_t \<Rightarrow> nat option \<Rightarrow> nat list \<Rightarrow> bool" where
  "clist l p [] = (p = None)"
| "clist l p (x # xs) = (p = Some x \<and> clist l (next_closing (handles l x)) xs)"

text \<open>
  The contract of the collaborators that run inside \<^verbatim>\<open>uv_close\<close> and
  \<^verbatim>\<open>uv__finish_close\<close>: they leave the closing list and, of every handle, the two
  lifecycle bits, the list link, the callback and the type tag as they are.
\<close>

definition same_core :: "uv_loop_t \<Rightarrow> uv_loop_t \<Rightarrow> nat \<Rightarrow> bool" where
  "same_core l l' k =
     (flag_closing l' k = flag_closing l k \<and> flag_closed l' k = flag_closed l k
      \<and> next_closing (handles l' k) = next_closing (handles l k)
      \<and> close_cb (handles l' k) = close_cb (handles l k)
      \<and> handle_type (handles l' k) = handle_type (handles l k))"

definition keeps_closing_state :: "(uv_loop_t \<Rightarrow> uv_loop_t) \<Rightarrow> bool" where
  "keeps_closing_state f =
     (\<forall>l. closing_handles (f l) = closing_handles l \<and> (\<forall>k. same_core l (f l) k))"

definition hooks_ok :: "env \<Rightarrow> bool" where
  "hooks_ok e =
     ((\<forall>t h. keeps_closing_state (close_hook e t h))
      \<and> (\<forall>h. keeps_closing_state (stream_destroy e h))
      \<and> (\<forall>h. keeps_closing_state (udp_finish_close e h))
      \<and> (\<forall>h. keeps_closing_state (handle_unref e h))
      \<and> (\<forall>h. keeps_closing_state (handle_queue_remove e h)))"

definition closing_list :: "uv_loop_t \<Rightarrow> nat list \<Rightarrow> bool" where
  "closing_list l ys = (clist l (closing_handles l) ys \<and> distinct ys
      \<and> (\<forall>y\<in>set ys. flag_closing l y \<and> \<not> flag_closed l y))"

text \<open>What an accepted \<^verbatim>\<open>uv_close\<close> does to the state of the close protocol.\<close>

definition close_step :: "nat \<Rightarrow> nat option \<Rightarrow> uv_loop_t \<Rightarrow> uv_loop_t \<Rightarrow> bool" where
  "close_step h c l l' =
     (\<not> flag_closing l h \<and> \<not> flag_closed l h \<and> flag_closing l' h \<and> \<not> flag_closed l' h
      \<and> close_cb (handles l' h) = c
      \<and> handle_type (handles l' h) = handle_type (handles l h)
      \<and> (\<forall>k. k \<noteq> h \<longrightarrow> same_core l l' k)
      \<and> (if handle_type (handles l h) = UV_SIGNAL
         then closing_handles l' = closing_handles l
         else closing_handles l' = Some h \<and> next_closing (handles l' h) = closing_handles l))"

text \<open>The handles that the calls of a callback push on the closing list, in call order.\<close>

fun pushed :: "uv_loop_t \<Rightarrow> action list \<Rightarrow> nat list" where
  "pushed l [] = []"
| "pushed l (ActClose h c # as) =
     (if handle_type (handles l h) = UV_SIGNAL then pushed l as else h # pushed l as)"
| "pushed l (ActFeed w # as) = pushed l as"

definition exec_post :: "uv_loop_t \<Rightarrow> uv_loop_t \<Rightarrow> bool" where
  "exec_post l l' =
     ((\<forall>k. flag_closing l k \<longrightarrow> same_core l l' k) \<and> (\<forall>k. flag_closed l' k = flag_closed l k)
      \<and> (\<forall>k. handle_type (handles l' k) = handle_type (handles l k)))"

text \<open>
  The type tags that the switches of \<^verbatim>\<open>uv_close\<close> and \<^verbatim>\<open>uv__finish_close\<close> accept, a
  callback that closes no handle, and a list of handles whose callbacks close none.
\<close>

definition closable_type :: "uv_handle_type \<Rightarrow> bool" where
  "closable_type t =
     (t \<notin> {UV_UNKNOWN_HANDLE, UV_HANDLE, UV_STREAM, UV_FILE, UV_HANDLE_TYPE_MAX})"

definition no_close :: "action list \<Rightarrow> bool" where
  "no_close as = (\<forall>B c. ActClose B c \<notin> set as)"

definition quiet :: "env \<Rightarrow> uv_loop_t \<Rightarrow> nat list \<Rightarrow> bool" where
  "quiet e l R =
     (\<forall>y\<in>set R. closable_type (handle_type (handles l y))
        \<and> (\<forall>cid. close_cb (handles l y) = Some cid \<longrightarrow> no_close (close_cbs e cid y)))"

definition drain_post ::
  "env \<Rightarrow> uv_loop_t \<Rightarrow> nat list \<Rightarrow> nat list \<Rightarrow> uv_loop_t \<Rightarrow> bool" where
  "drain_post e l R N l' =
     (\<exists>M. closing_list l' (M @ N)
        \<and> (\<forall>k. flag_closed l' k = (k \<in> set R \<or> flag_closed l k))
        \<and> (\<forall>A cid B c. A \<in> set R \<and> close_cb (handles l A) = Some cid
               \<and> ActClose B c \<in> set (close_cbs e cid A)
             \<longrightarrow> \<not> flag_closing l B \<and> \<not> flag_closed l' B
                 \<and> (handle_type (handles l B) \<noteq> UV_SIGNAL \<longrightarrow> B \<in> set M)))"

text \<open>
  The scenario of a tick: the given calls are made, then the closing list is drained.
  The result is the order in which the drain finalizes handles, or \<open>None\<close> when a call
  aborts or the drain does not return.
\<close>

definition drain_after :: "env \<Rightarrow> action list \<Rightarrow> uv_loop_t \<Rightarrow> nat list option" where
  "drain_after e as l =
     (case exec e as l of
        Inl x \<Rightarrow> None
      | Inr l1 \<Rightarrow>
          (case uv__run_closing_handles e l1 of
             Some (Inr (l2, fin)) \<Rightarrow> Some fin
           | _ \<Rightarrow> None))"

subsection \<open>The pending queue\<close>

text \<open>
  The loop of \<^verbatim>\<open>uv__run_pending\<close>: while the queue is not empty, its head is unlinked
  and re-initialised, and the callback of the watcher is called with \<^verbatim>\<open>UV__POLLOUT\<close>.
  The second argument collects the calls made, watcher and event mask, in call order.
\<close>

partial_function (option) uv__run_pending ::
  "env \<Rightarrow> (nat \<times> 32 word) list \<Rightarrow> uv_loop_t \<Rightarrow> (error + uv_loop_t \<times> (nat \<times> 32 word) list) option"
  where
  "uv__run_pending e calls l =
     (case pending_queue l of
        [] \<Rightarrow> Some (Inr (l, calls))
      | w # ws \<Rightarrow>
          let l1 = l\<lparr>pending_queue := ws\<rparr>
          in (case exec e (io_cbs e (cb (ios l1 w)) w UV__POLLOUT) l1 of
                Inl x \<Rightarrow> Some (Inl x)
              | Inr l2 \<Rightarrow> uv__run_pending e (calls @ [(w, UV__POLLOUT)]) l2))"

text \<open>
  The callbacks that one drain of the pending queue invokes, or \<open>None\<close> when a callback
  aborts or the drain does not return.
\<close>

definition pending_calls :: "env \<Rightarrow> uv_loop_t \<Rightarrow> (nat \<times> 32 word) list option" where
  "pending_calls e l =
     (case uv__run_pending e [] l of Some (Inr (l', calls)) \<Rightarrow> Some calls | _ \<Rightarrow> None)"

text \<open>An environment whose watcher callbacks make no call but \<^verbatim>\<open>uv__io_feed\<close>.\<close>

definition feeds_only :: "env \<Rightarrow> bool" where
  "feeds_only e = (\<forall>c w ev. no_close (io_cbs e c w ev))"

text \<open>
  What a drain that returns has done, for the watchers \<open>ws\<close> it called in order: the queue
  is empty, the calls start with the watchers that were queued when the drain began, and
  every call is followed, later in the same drain, by a call of each watcher it fed.
\<close>

definition pending_post :: "env \<Rightarrow> uv_loop_t \<Rightarrow> uv_loop_t \<Rightarrow> nat list \<Rightarrow> bool" where
  "pending_post e l l' ws =
     (pending_queue l' = [] \<and> (\<exists>rest. ws = pending_queue l @ rest)
      \<and> (\<forall>pre w post v. ws = pre @ w # post
            \<and> ActFeed v \<in> set (io_cbs e (cb (ios l w)) w UV__POLLOUT) \<longrightarrow> v \<in> set post))"

subsection \<open>Descriptor helpers\<close>

text \<open>
  The operating system is the list of the outcomes of the system calls that the program
  is still to make, in order: a call succeeds with a non-negative value or fails, that
  is returns \<open>-1\<close> and sets \<^verbatim>\<open>errno\<close>. The world also holds \<^verbatim>\<open>errno\<close> and the static
  \<^verbatim>\<open>no_accept4\<close> of \<^verbatim>\<open>uv__accept\<close>. A helper that runs out of outcomes returns \<open>None\<close>:
  it is still retrying.
\<close>

datatype sysres = Ret nat | Fail int

record world =
  errno :: int
  no_accept4 :: bool
  future :: "sysres list"

text \<open>The values of \<^verbatim>\<open>errno.h\<close> and \<^verbatim>\<open>unistd.h\<close> on Linux.\<close>

definition EINTR :: int where "EINTR = 4"
definition ENOSYS :: int where "ENOSYS = 38"
definition EINPROGRESS :: int where "EINPROGRESS = 115"
definition STDERR_FILENO :: int where "STDERR_FILENO = 2"

definition syscall :: "world \<Rightarrow> (int \<times> world) option" where
  "syscall w =
     (case future w of
        [] \<Rightarrow> None
      | Ret v # rs \<Rightarrow> Some (int v, w\<lparr>future := rs\<rparr>)
      | Fail e # rs \<Rightarrow> Some (- 1, w\<lparr>errno := e, future := rs\<rparr>))"

text \<open>
  The \<^verbatim>\<open>ioctl\<close> variants of \<^verbatim>\<open>uv__nonblock\<close> and \<^verbatim>\<open>uv__cloexec\<close> (Linux, FreeBSD,
  macOS): the call is repeated while it fails with \<^verbatim>\<open>EINTR\<close>.
\<close>

function uv__nonblock :: "world \<Rightarrow> int \<Rightarrow> int \<Rightarrow> (int \<times> world) option" where
  "uv__nonblock w desc on =
     (case syscall w of
        None \<Rightarrow> None
      | Some (r, w') \<Rightarrow>
          if r = - 1 \<and> errno w' = EINTR then uv__nonblock w' desc on else Some (r, w'))"
  by pat_completeness auto
termination
  by (relation "measure (\<lambda>(w, desc, on). length (future w))")
     (auto simp: syscall_def split: list.splits sysres.splits)

function uv__cloexec :: "world \<Rightarrow> int \<Rightarrow> int \<Rightarrow> (int \<times> world) option" where
  "uv__cloexec w desc on =
     (case syscall w of
        None \<Rightarrow> None
      | Some (r, w') \<Rightarrow>
          if r = - 1 \<and> errno w' = EINTR then uv__cloexec w' desc on else Some (r, w'))"
  by pat_completeness auto
termination
  by (relation "measure (\<lambda>(w, desc, on). length (future w))")
     (auto simp: syscall_def split: list.splits sysres.splits)

text \<open>
  \<^verbatim>\<open>uv__accept\<close> on Linux. \<open>accept_loop\<close> is the top of the \<^verbatim>\<open>while (1)\<close> loop,
  \<open>accept_skip\<close> the label \<^verbatim>\<open>skip\<close>, and \<open>accept_flags\<close> the flag setting that ends
  an iteration, with the \<^verbatim>\<open>close\<close> that rolls a half-configured descriptor back.
  \<^verbatim>\<open>uv__accept4\<close> is one system call.
\<close>

definition accept_flags :: "world \<Rightarrow> int \<Rightarrow> (int \<times> world) option" where
  "accept_flags w peerfd =
     (case uv__cloexec w peerfd 1 of
        None \<Rightarrow> None
      | Some (r1, w1) \<Rightarrow>
          if r1 \<noteq> 0 then map_option (\<lambda>(rc, w'). (- 1, w')) (syscall w1)
          else (case uv__nonblock w1 peerfd 1 of
                  None \<Rightarrow> None
                | Some (r2, w2) \<Rightarrow>
                    if r2 \<noteq> 0 then map_option (\<lambda>(rc, w'). (- 1, w')) (syscall w2)
                    else Some (peerfd, w2)))"

function accept_loop :: "world \<Rightarrow> int \<Rightarrow> (int \<times> world) option"
  and accept_skip :: "world \<Rightarrow> int \<Rightarrow> (int \<times> world) option" where
  "accept_loop w sockfd =
     (if no_accept4 w then accept_skip w sockfd
      else
        case syscall w of
          None \<Rightarrow> None
        | Some (peerfd, w1) \<Rightarrow>
            if peerfd \<noteq> - 1 then Some (peerfd, w1)
            else if errno w1 = EINTR then accept_loop w1 sockfd
            else if errno w1 \<noteq> ENOSYS then Some (peerfd, w1)
            else accept_skip (w1\<lparr>no_accept4 := True\<rparr>) sockfd)"
| "accept_skip w sockfd =
     (case syscall w of
        None \<Rightarrow> None
      | Some (peerfd, w1) \<Rightarrow>
          if peerfd = - 1 then (if errno w1 = EINTR then accept_loop w1 sockfd else Some (peerfd, w1))
          else accept_flags w1 peerfd)"
  by pat_completeness auto
termination
  by (relation "measure (\<lambda>x. case x of Inl (w, s) \<Rightarrow> 2 * length (future w) + 1
                                     | Inr (w, s) \<Rightarrow> 2 * length (future w))")
     (auto simp: syscall_def split: list.splits sysres.splits)

definition uv__accept :: "world \<Rightarrow> int \<Rightarrow> (error + int \<times> world) option" where
  "uv__accept w sockfd =
     (if \<not> 0 \<le> sockfd then Some (Inl AssertionFailed)
      else map_option Inr (accept_loop w sockfd))"

definition uv__close :: "world \<Rightarrow> int \<Rightarrow> (error + int \<times> world) option" where
  "uv__close w desc =
     (if \<not> - 1 < desc then Some (Inl AssertionFailed)
      else if \<not> STDERR_FILENO < desc then Some (Inl AssertionFailed)
      else
        let saved_errno = errno w
        in case syscall w of
             None \<Rightarrow> None
           | Some (rc, w1) \<Rightarrow>
               if rc = - 1
               then let rc1 = - errno w1;
                        rc2 = (if rc1 = - EINTR then - EINPROGRESS else rc1)
                    in Some (Inr (rc2, w1\<lparr>errno := saved_errno\<rparr>))
               else Some (Inr (rc, w1)))"

text \<open>
  Modelled from the spec: the macro \<^verbatim>\<open>SAVE_ERRNO\<close> of \<^verbatim>\<open>internal.h\<close> is not among the
  sources; it runs its argument and restores \<^verbatim>\<open>errno\<close>.
\<close>

definition uv__dup :: "world \<Rightarrow> int \<Rightarrow> (int \<times> world) option" where
  "uv__dup w desc =
     (case syscall w of
        None \<Rightarrow> None
      | Some (fd1, w1) \<Rightarrow>
          if fd1 = - 1 then Some (- 1, w1)
          else (case uv__cloexec w1 fd1 1 of
                  None \<Rightarrow> None
                | Some (r, w2) \<Rightarrow>
                    if r \<noteq> 0
                    then map_option (\<lambda>(rc, w'). (- 1, w'\<lparr>errno := errno w2\<rparr>)) (syscall w2)
                    else Some (fd1, w2)))"

text \<open>
  What the caller of a helper can tell: the value returned, and what is left for later
  calls (the static flag and the outcomes not consumed).
\<close>

definition observed :: "int \<times> world \<Rightarrow> int \<times> bool \<times> sysres list" where
  "observed x = (fst x, no_accept4 (snd x), future (snd x))"

subsection \<open>The reactor driver\<close>

text \<open>
  Modelled from the spec: the enumeration \<^verbatim>\<open>uv_run_mode\<close> of \<^verbatim>\<open>uv.h\<close> is not among the
  sources. Its four modes are numbered in the order of their declaration, from 0.
\<close>

datatype uv_run_mode = UV_RUN_DEFAULT | UV_RUN_ONCE | UV_RUN_NOWAIT | UV_RUN_PAUSE

definition mode_bits :: "uv_run_mode \<Rightarrow> 32 word" where
  "mode_bits m =
     (case m of UV_RUN_DEFAULT \<Rightarrow> 0 | UV_RUN_ONCE \<Rightarrow> 1 | UV_RUN_NOWAIT \<Rightarrow> 2 | UV_RUN_PAUSE \<Rightarrow> 3)"

definition THREAD_ID_NOT_DEFINED :: int where
  "THREAD_ID_NOT_DEFINED = - 1"

definition THREAD_ID_ALREADY_DEFINED :: int where
  "THREAD_ID_ALREADY_DEFINED = - 2"

text \<open>The first statement of \<^verbatim>\<open>uv_run_jx\<close>: the identity of the loop is stored.\<close>

definition set_loop_id :: "uv_loop_t \<Rightarrow> int \<Rightarrow> uv_loop_t" where
  "set_loop_id l tid =
     (if tid \<noteq> THREAD_ID_ALREADY_DEFINED
      then (if tid \<noteq> THREAD_ID_NOT_DEFINED then l\<lparr>loopId := tid\<rparr> else l\<lparr>loopId := 63\<rparr>)
      else l)"

text \<open>
  One tick: the body of the \<^verbatim>\<open>while\<close> loop of \<^verbatim>\<open>uv_run_jx\<close> up to the call of
  \<^verbatim>\<open>uv__run_closing_handles\<close>. With the loop it returns the timeout that it handed to
  \<^verbatim>\<open>uv__io_poll_jx\<close>, or \<open>None\<close> when the poll was skipped. The probes
  \<^verbatim>\<open>UV_TICK_START\<close> and \<^verbatim>\<open>UV_TICK_STOP\<close> have no effect on the loop.
\<close>

definition run_tick ::
  "env \<Rightarrow> uv_run_mode \<Rightarrow> uv_loop_t \<Rightarrow> (error + uv_loop_t \<times> int option) option" where
  "run_tick e mode l =
     (case uv__run_pending e [] (run_prepare e (run_idle e (run_timers e (update_time e l)))) of
        None \<Rightarrow> None
      | Some (Inl x) \<Rightarrow> Some (Inl x)
      | Some (Inr (l2, calls)) \<Rightarrow>
          let timeout = (if mode_bits mode AND mode_bits UV_RUN_NOWAIT = 0
                         then uv_backend_timeout e l2 else 0);
              l3 = (if mode \<noteq> UV_RUN_PAUSE then io_poll_jx e l2 timeout (loopId l2) else l2)
          in (case uv__run_closing_handles e (run_check e l3) of
                None \<Rightarrow> None
              | Some (Inl x) \<Rightarrow> Some (Inl x)
              | Some (Inr (l5, fin)) \<Rightarrow>
                  Some (Inr (l5, if mode \<noteq> UV_RUN_PAUSE then Some timeout else None))))"

text \<open>
  The \<^verbatim>\<open>while\<close> loop of \<^verbatim>\<open>uv_run_jx\<close>. The fourth argument collects what each tick
  reports about its poll; its length is the number of ticks.
\<close>

partial_function (option) run_loop ::
  "env \<Rightarrow> uv_run_mode \<Rightarrow> bool \<Rightarrow> int option list \<Rightarrow> uv_loop_t
     \<Rightarrow> (error + bool \<times> uv_loop_t \<times> int option list) option" where
  "run_loop e mode r polls l =
     (if r \<and> stop_flag l = 0
      then (case run_tick e mode l of
              None \<Rightarrow> None
            | Some (Inl x) \<Rightarrow> Some (Inl x)
            | Some (Inr (l', p)) \<Rightarrow>
                if mode_bits mode
                     AND (mode_bits UV_RUN_ONCE OR mode_bits UV_RUN_NOWAIT OR mode_bits UV_RUN_PAUSE)
                   \<noteq> 0
                then Some (Inr (uv__loop_alive l', l', polls @ [p]))
                else run_loop e mode (uv__loop_alive l') (polls @ [p]) l')
      else Some (Inr (r, l, polls)))"

text \<open>
  The loop that drains a stopped loop for at most 50 ms. Its first argument is the call
  of \<^verbatim>\<open>uv_run_jx\<close> in its body; \<open>hrtime e n\<close> is what the \<open>n\<close>-th reading of the clock
  returns.
\<close>

partial_function (option) force_loop ::
  "(uv_loop_t \<Rightarrow> (error + bool \<times> uv_loop_t \<times> int option list) option) \<Rightarrow> env \<Rightarrow> nat \<Rightarrow> 64 word
     \<Rightarrow> int option list \<Rightarrow> uv_loop_t \<Rightarrow> (error + uv_loop_t \<times> int option list) option" where
  "force_loop nested e n start_time polls l =
     (case nested l of
        None \<Rightarrow> None
      | Some (Inl x) \<Rightarrow> Some (Inl x)
      | Some (Inr (ret_val, l', ps)) \<Rightarrow>
          if 50 * 1000 * 1000 < hrtime e n - start_time then Some (Inr (l', polls @ ps))
          else if ret_val then force_loop nested e (Suc n) start_time (polls @ ps) l'
          else Some (Inr (l', polls @ ps)))"

text \<open>
  \<^verbatim>\<open>uv_run_jx\<close>, with the call that it makes to itself as the first argument. The mutex
  around the test of the work queue has no effect on a single thread.
\<close>

definition run_jx_with ::
  "(uv_loop_t \<Rightarrow> (error + bool \<times> uv_loop_t \<times> int option list) option) \<Rightarrow> env \<Rightarrow> uv_loop_t
     \<Rightarrow> uv_run_mode \<Rightarrow> nat option \<Rightarrow> int \<Rightarrow> (error + bool \<times> uv_loop_t \<times> int option list) option"
  where
  "run_jx_with nested e l mode triggerSync tid =
     (let l0 = set_loop_id l tid
      in case run_loop e mode (uv__loop_alive l0) [] l0 of
           None \<Rightarrow> None
         | Some (Inl x) \<Rightarrow> Some (Inl x)
         | Some (Inr (r, l1, polls)) \<Rightarrow>
             let l2 = (case triggerSync of
                         None \<Rightarrow> l1
                       | Some f \<Rightarrow>
                           if 0 \<le> loopId l1 \<and> mode = UV_RUN_DEFAULT
                           then trigger_sync e f (loopId l1) l1 else l1)
             in if stop_flag l2 \<noteq> 0
                then let l3 = l2\<lparr>stop_flag := 0\<rparr>
                     in if mode \<noteq> UV_RUN_DEFAULT then Some (Inr (r, l3, polls))
                        else if wq l3 \<noteq> [] \<and> 0 < loopId l3
                        then (case force_loop nested e 1 (hrtime e 0) polls l3 of
                                None \<Rightarrow> None
                              | Some (Inl x) \<Rightarrow> Some (Inl x)
                              | Some (Inr (l4, ps)) \<Rightarrow> Some (Inr (r, l4, ps)))
                        else Some (Inr (r, l3, polls))
                else Some (Inr (r, l2, polls)))"

text \<open>
  The call in the draining loop runs in mode \<^verbatim>\<open>UV_RUN_NOWAIT\<close>, which returns before
  the draining loop is reached; so the recursion is two calls deep at most, and
  \<^verbatim>\<open>uv_run_jx\<close> is \<open>run_jx_with\<close> applied to the call it makes.
\<close>

definition uv_run_jx ::
  "env \<Rightarrow> uv_loop_t \<Rightarrow> uv_run_mode \<Rightarrow> nat option \<Rightarrow> int
     \<Rightarrow> (error + bool \<times> uv_loop_t \<times> int option list) option" where
  "uv_run_jx e l mode triggerSync tid =
     run_jx_with
       (\<lambda>l'. run_jx_with (\<lambda>_. None) e l' UV_RUN_NOWAIT triggerSync THREAD_ID_ALREADY_DEFINED)
       e l mode triggerSync tid"

definition uv_run ::
  "env \<Rightarrow> uv_loop_t \<Rightarrow> uv_run_mode \<Rightarrow> (error + bool \<times> uv_loop_t \<times> int option list) option" where
  "uv_run e l mode = uv_run_jx e l mode None (- 1)"

text \<open>
  The contract of the collaborators for the identity of the loop: none of them writes
  \<^verbatim>\<open>loopId\<close>.
\<close>

definition keeps_loop_id :: "env \<Rightarrow> bool" where
  "keeps_loop_id e =
     ((\<forall>t h l. loopId (close_hook e t h l) = loopId l)
      \<and> (\<forall>h l. loopId (stream_destroy e h l) = loopId l)
      \<and> (\<forall>h l. loopId (udp_finish_close e h l) = loopId l)
      \<and> (\<forall>h l. loopId (handle_unref e h l) = loopId l)
      \<and> (\<forall>h l. loopId (handle_queue_remove e h l) = loopId l)
      \<and> (\<forall>l. loopId (update_time e l) = loopId l)
      \<and> (\<forall>l. loopId (run_timers e l) = loopId l)
      \<and> (\<forall>l. loopId (run_idle e l) = loopId l)
      \<and> (\<forall>l. loopId (run_prepare e l) = loopId l)
      \<and> (\<forall>l. loopId (run_check e l) = loopId l)
      \<and> (\<forall>l t i. loopId (io_poll_jx e l t i) = loopId l)
      \<and> (\<forall>f i l. loopId (trigger_sync e f i l) = loopId l))"

text \<open>
  The loop as the two drains of a tick in mode \<^verbatim>\<open>UV_RUN_NOWAIT\<close> find it:
  \<^verbatim>\<open>uv__run_pending\<close> runs after the timers, the idle and the prepare handles, and
  \<^verbatim>\<open>uv__run_closing_handles\<close> after the poll with timeout 0 and the check handles, on
  the loop \<open>l2\<close> that the pending drain left.
\<close>

definition before_pending :: "env \<Rightarrow> uv_loop_t \<Rightarrow> uv_loop_t" where
  "before_pending e l = run_prepare e (run_idle e (run_timers e (update_time e l)))"

definition before_closing :: "env \<Rightarrow> uv_loop_t \<Rightarrow> uv_loop_t" where
  "before_closing e l2 = run_check e (io_poll_jx e l2 0 (loopId l2))"

subsection \<open>The watcher table\<close>

definition next_power_of_two :: "32 word \<Rightarrow> 32 word" where
  "next_power_of_two val =
     (let v0 = val - 1;
          v1 = v0 OR drop_bit 1 v0;
          v2 = v1 OR drop_bit 2 v1;
          v3 = v2 OR drop_bit 4 v2;
          v4 = v3 OR drop_bit 8 v3;
          v5 = v4 OR drop_bit 16 v4
      in v5 + 1)"

text \<open>
  Reading and writing an element of the array behind \<^verbatim>\<open>loop->watchers\<close>. C leaves an
  access through \<^verbatim>\<open>NULL\<close> or outside the block undefined; here it is a \<open>MemoryFault\<close>.
\<close>

definition array_get :: "nat option list option \<Rightarrow> nat \<Rightarrow> error + nat option" where
  "array_get a i =
     (case a of
        None \<Rightarrow> Inl MemoryFault
      | Some xs \<Rightarrow> if i < length xs then Inr (xs ! i) else Inl MemoryFault)"

definition array_set ::
  "nat option list option \<Rightarrow> nat \<Rightarrow> nat option \<Rightarrow> error + nat option list option" where
  "array_set a i v =
     (case a of
        None \<Rightarrow> Inl MemoryFault
      | Some xs \<Rightarrow> if i < length xs then Inr (Some (xs[i := v])) else Inl MemoryFault)"

text \<open>The loop of \<^verbatim>\<open>maybe_resize\<close> that sets the slots from \<open>i\<close> up to \<open>n\<close> to \<^verbatim>\<open>NULL\<close>.\<close>

function null_fill ::
  "nat option list option \<Rightarrow> 32 word \<Rightarrow> 32 word \<Rightarrow> error + nat option list option" where
  "null_fill a i n =
     (if i < n
      then (case array_set a (unat i) None of
              Inl x \<Rightarrow> Inl x
            | Inr a' \<Rightarrow> null_fill a' (i + 1) n)
      else Inr a)"
  by pat_completeness auto
termination
proof (relation "measure (\<lambda>(a, i, n). unat n - unat i)")
  show "wf (measure (\<lambda>(a, i, n). unat n - unat i))" by simp
next
  fix a :: "nat option list option" and i n :: "32 word" and x2 :: "nat option list option"
  assume "i < n"
  then have "unat i < unat n" by (simp add: word_less_nat_alt)
  moreover have "unat n < 2 ^ 32" using unsigned_less [of n] by simp
  ultimately have "unat (i + 1) = unat i + 1"
    by (simp add: unat_word_ariths)
  with \<open>unat i < unat n\<close> show "((x2, i + 1, n), (a, i, n)) \<in> measure (\<lambda>(a, i, n). unat n - unat i)"
    by simp
qed

declare null_fill.simps [simp del]

text \<open>
  \<^verbatim>\<open>maybe_resize\<close>. \<open>saved_fake_watchers\<close> is the block that reads the two auxiliary
  slots behind the table. The allocator is asked for \<^verbatim>\<open>nwatchers + 2\<close> elements, a sum
  taken in \<^verbatim>\<open>unsigned int\<close>; \<open>realloc e a n\<close> is \<open>None\<close> when the allocation fails.
\<close>

definition saved_fake_watchers :: "uv_loop_t \<Rightarrow> error + nat option \<times> nat option" where
  "saved_fake_watchers l =
     (case watchers l of
        None \<Rightarrow> Inr (None, None)
      | Some xs \<Rightarrow>
          (case array_get (watchers l) (unat (nwatchers l)) of
             Inl x \<Rightarrow> Inl x
           | Inr fake_watcher_list \<Rightarrow>
               (case array_get (watchers l) (unat (nwatchers l + 1)) of
                  Inl x \<Rightarrow> Inl x
                | Inr fake_watcher_count \<Rightarrow> Inr (fake_watcher_list, fake_watcher_count))))"

definition maybe_resize :: "env \<Rightarrow> uv_loop_t \<Rightarrow> 32 word \<Rightarrow> error + uv_loop_t" where
  "maybe_resize e l len =
     (if len \<le> nwatchers l then Inr l
      else
        case saved_fake_watchers l of
          Inl x \<Rightarrow> Inl x
        | Inr (fake_watcher_list, fake_watcher_count) \<Rightarrow>
            let nw = next_power_of_two (len + 2) - 2
            in (case realloc e (watchers l) (unat (nw + 2)) of
                  None \<Rightarrow> Inl Abort
                | Some ws \<Rightarrow>
                    (case null_fill (Some ws) (nwatchers l) nw of
                       Inl x \<Rightarrow> Inl x
                     | Inr a1 \<Rightarrow>
                         (case array_set a1 (unat nw) fake_watcher_list of
                            Inl x \<Rightarrow> Inl x
                          | Inr a2 \<Rightarrow>
                              (case array_set a2 (unat (nw + 1)) fake_watcher_count of
                                 Inl x \<Rightarrow> Inl x
                               | Inr a3 \<Rightarrow> Inr (l\<lparr>watchers := a3, nwatchers := nw\<rparr>))))))"

definition upd_io :: "nat \<Rightarrow> (uv__io_t \<Rightarrow> uv__io_t) \<Rightarrow> uv_loop_t \<Rightarrow> uv_loop_t" where
  "upd_io w f l = l\<lparr>ios := (ios l)(w := f (ios l w))\<rparr>"

text \<open>
  \<^verbatim>\<open>uv__io_start\<close> and \<^verbatim>\<open>uv__io_stop\<close>, as compiled where \<^verbatim>\<open>__sun\<close> is not defined. The
  link \<^verbatim>\<open>w->watcher_queue\<close> is empty exactly when the watcher is not in the queue of the
  loop. \<open>register_watcher\<close> is the part of \<^verbatim>\<open>uv__io_start\<close> that follows the call of
  \<^verbatim>\<open>maybe_resize\<close>.
\<close>

definition register_watcher :: "uv_loop_t \<Rightarrow> nat \<Rightarrow> error + uv_loop_t" where
  "register_watcher l2 w =
     (if events (ios l2 w) = pevents (ios l2 w)
      then (if events (ios l2 w) = 0 \<and> w \<in> set (watcher_queue l2)
            then Inr (l2\<lparr>watcher_queue := removeAll w (watcher_queue l2)\<rparr>)
            else Inr l2)
      else
        let l3 = (if w \<notin> set (watcher_queue l2)
                  then l2\<lparr>watcher_queue := watcher_queue l2 @ [w]\<rparr> else l2)
        in (case array_get (watchers l3) (nat (fd (ios l3 w))) of
              Inl x \<Rightarrow> Inl x
            | Inr (Some v) \<Rightarrow> Inr l3
            | Inr None \<Rightarrow>
                (case array_set (watchers l3) (nat (fd (ios l3 w))) (Some w) of
                   Inl x \<Rightarrow> Inl x
                 | Inr a \<Rightarrow> Inr (l3\<lparr>watchers := a, nfds := nfds l3 + 1\<rparr>))))"

definition uv__io_start :: "env \<Rightarrow> uv_loop_t \<Rightarrow> nat \<Rightarrow> 32 word \<Rightarrow> error + uv_loop_t" where
  "uv__io_start e l w ev =
     (if ev AND NOT (UV__POLLIN OR UV__POLLOUT) \<noteq> 0 then Inl AssertionFailed
      else if ev = 0 then Inl AssertionFailed
      else if \<not> 0 \<le> fd (ios l w) then Inl AssertionFailed
      else if \<not> fd (ios l w) < INT_MAX then Inl AssertionFailed
      else
        let l1 = upd_io w (\<lambda>x. x\<lparr>pevents := pevents x OR ev\<rparr>) l
        in case maybe_resize e l1 (word_of_int (fd (ios l1 w) + 1)) of
             Inl x \<Rightarrow> Inl x
           | Inr l2 \<Rightarrow> register_watcher l2 w)"

definition uv__io_stop :: "uv_loop_t \<Rightarrow> nat \<Rightarrow> 32 word \<Rightarrow> error + uv_loop_t" where
  "uv__io_stop l w ev =
     (if ev AND NOT (UV__POLLIN OR UV__POLLOUT) \<noteq> 0 then Inl AssertionFailed
      else if ev = 0 then Inl AssertionFailed
      else if fd (ios l w) = - 1 then Inr l
      else if \<not> 0 \<le> fd (ios l w) then Inl AssertionFailed
      else if nwatchers l \<le> word_of_int (fd (ios l w)) then Inr l
      else
        let l1 = upd_io w (\<lambda>x. x\<lparr>pevents := pevents x AND NOT ev\<rparr>) l
        in if pevents (ios l1 w) = 0
           then
             let l2 = l1\<lparr>watcher_queue := removeAll w (watcher_queue l1)\<rparr>
             in (case array_get (watchers l2) (nat (fd (ios l2 w))) of
                   Inl x \<Rightarrow> Inl x
                 | Inr None \<Rightarrow> Inr l2
                 | Inr (Some v) \<Rightarrow>
                     if v \<noteq> w then Inl AssertionFailed
                     else if \<not> 0 < nfds l2 then Inl AssertionFailed
                     else (case array_set (watchers l2) (nat (fd (ios l2 w))) None of
                             Inl x \<Rightarrow> Inl x
                           | Inr a \<Rightarrow>
                               Inr ((upd_io w (\<lambda>x. x\<lparr>events := 0\<rparr>) l2)
                                      \<lparr>watchers := a, nfds := nfds l2 - 1\<rparr>)))
           else if w \<notin> set (watcher_queue l1)
           then Inr (l1\<lparr>watcher_queue := watcher_queue l1 @ [w]\<rparr>)
           else Inr l1)"

text \<open>
  What the C standard promises of \<^verbatim>\<open>realloc\<close>: a block of the size asked for, whose
  contents are those of the old block up to the smaller of the two sizes. The rest of the
  new block is arbitrary.
\<close>

definition realloc_ok :: "env \<Rightarrow> bool" where
  "realloc_ok e =
     (\<forall>a n ws. realloc e a n = Some ws \<longrightarrow>
        length ws = n
        \<and> (\<forall>xs. a = Some xs \<longrightarrow> (\<forall>i. i < n \<and> i < length xs \<longrightarrow> ws ! i = xs ! i)))"

text \<open>
  The shape of the table: no array while the capacity is 0, and otherwise an array of
  \<^verbatim>\<open>nwatchers\<close> slots followed by the two auxiliary slots. \<open>slot l i\<close> is the slot of
  descriptor \<open>i\<close> (\<^verbatim>\<open>NULL\<close> beyond the capacity), \<open>aux_slots l\<close> the contents of the two
  auxiliary slots.
\<close>

definition table_ok :: "uv_loop_t \<Rightarrow> bool" where
  "table_ok l =
     (case watchers l of
        None \<Rightarrow> nwatchers l = 0
      | Some xs \<Rightarrow> length xs = unat (nwatchers l) + 2)"

definition slot :: "uv_loop_t \<Rightarrow> nat \<Rightarrow> nat option" where
  "slot l i =
     (case watchers l of
        None \<Rightarrow> None
      | Some xs \<Rightarrow> if i < unat (nwatchers l) \<and> i < length xs then xs ! i else None)"

definition aux_slots :: "uv_loop_t \<Rightarrow> nat option \<times> nat option" where
  "aux_slots l =
     (case watchers l of
        None \<Rightarrow> (None, None)
      | Some xs \<Rightarrow> (xs ! unat (nwatchers l), xs ! (unat (nwatchers l) + 1)))"

text \<open>
  The state of one watcher between calls: a valid descriptor, whose slot holds the watcher
  when \<^verbatim>\<open>pevents\<close> is not empty and \<^verbatim>\<open>NULL\<close> when it is, and no event armed in the backend
  (\<^verbatim>\<open>events\<close>) while \<^verbatim>\<open>pevents\<close> is empty. A watcher just set up by \<^verbatim>\<open>uv__io_init\<close>
  (\<^verbatim>\<open>events = pevents = 0\<close>) is in this state when the slot of its descriptor is free.
\<close>

definition watcher_inv :: "uv_loop_t \<Rightarrow> nat \<Rightarrow> bool" where
  "watcher_inv l w =
     (table_ok l \<and> 0 \<le> fd (ios l w) \<and> fd (ios l w) < INT_MAX
      \<and> slot l (nat (fd (ios l w))) = (if pevents (ios l w) = 0 then None else Some w)
      \<and> (pevents (ios l w) = 0 \<longrightarrow> events (ios l w) = 0))"

text \<open>A sequence of calls of \<^verbatim>\<open>uv__io_start\<close> and \<^verbatim>\<open>uv__io_stop\<close> on one watcher.\<close>

datatype io_call = Start "32 word" | Stop "32 word"

fun run_calls :: "env \<Rightarrow> nat \<Rightarrow> io_call list \<Rightarrow> uv_loop_t \<Rightarrow> error + uv_loop_t" where
  "run_calls e w [] l = Inr l"
| "run_calls e w (Start ev # cs) l =
     (case uv__io_start e l w ev of Inl x \<Rightarrow> Inl x | Inr l' \<Rightarrow> run_calls e w cs l')"
| "run_calls e w (Stop ev # cs) l =
     (case uv__io_stop l w ev of Inl x \<Rightarrow> Inl x | Inr l' \<Rightarrow> run_calls e w cs l')"

subsection \<open>Fixtures\<close>

text \<open>
  A zeroed loop and collaborators that do nothing, for the concrete instances below: no
  timer is due (\<open>-1\<close>), the clock stands still and the allocator always succeeds.
\<close>

definition zero_handle :: uv_handle_t where
  "zero_handle = \<lparr>flags = 0, handle_type = UV_TIMER, close_cb = None, next_closing = None\<rparr>"

definition zero_io :: uv__io_t where
  "zero_io = \<lparr>cb = 0, fd = - 1, events = 0, pevents = 0\<rparr>"

definition zero_loop :: uv_loop_t where
  "zero_loop =
     \<lparr>handles = (\<lambda>_. zero_handle), ios = (\<lambda>_. zero_io), closing_handles = None,
      stop_flag = 0, loopId = 0, active_handles = 0, fakeHandle = 0, active_reqs = [],
      idle_handles = [], wq = [], pending_queue = [], watcher_queue = [], watchers = None,
      nwatchers = 0, nfds = 0\<rparr>"

definition idle_env :: env where
  "idle_env =
     \<lparr>close_hook = (\<lambda>_ _ l. l), stream_destroy = (\<lambda>_ l. l), udp_finish_close = (\<lambda>_ l. l),
      handle_unref = (\<lambda>_ l. l), handle_queue_remove = (\<lambda>_ l. l), close_cbs = (\<lambda>_ _. []),
      io_cbs = (\<lambda>_ _ _. []), update_time = (\<lambda>l. l), run_timers = (\<lambda>l. l),
      run_idle = (\<lambda>l. l), run_prepare = (\<lambda>l. l), run_check = (\<lambda>l. l),
      io_poll_jx = (\<lambda>l _ _. l), next_timeout = (\<lambda>_. - 1), trigger_sync = (\<lambda>_ _ l. l),
      hrtime = (\<lambda>_. 0),
      realloc = (\<lambda>a n. Some (take n (case a of None \<Rightarrow> [] | Some xs \<Rightarrow> xs)
                               @ replicate (n - length (case a of None \<Rightarrow> [] | Some xs \<Rightarrow> xs))
                                   (Some 0)))\<rparr>"

text \<open>A loop whose only active handle is the one behind the \<^verbatim>\<open>fakeHandle\<close> bias.\<close>

definition biased_loop :: uv_loop_t where
  "biased_loop = zero_loop\<lparr>active_handles := 1, fakeHandle := 1\<rparr>"

text \<open>
  A close callback (pointer 0) that closes handle 2, and a loop whose closing list holds
  handle 1 with that callback.
\<close>

definition chain_env :: env where
  "chain_env = idle_env\<lparr>close_cbs := (\<lambda>c h. if c = 0 then [ActClose 2 None] else [])\<rparr>"

definition one_closing :: uv_loop_t where
  "one_closing =
     (upd_handle 1 (\<lambda>x. x\<lparr>flags := UV_CLOSING, close_cb := Some 0\<rparr>) zero_loop)
       \<lparr>closing_handles := Some 1\<rparr>"

text \<open>
  Watcher callbacks: in \<open>relay_env\<close> the callback of watcher 1 feeds watcher 2; in
  \<open>refeed_env\<close> the callback of watcher 1 feeds watcher 1 again. \<open>one_pending\<close> is a
  loop with watcher 1 alone on the pending queue.
\<close>

definition relay_env :: env where
  "relay_env = idle_env\<lparr>io_cbs := (\<lambda>c w ev. if w = 1 then [ActFeed 2] else [])\<rparr>"

definition refeed_env :: env where
  "refeed_env = idle_env\<lparr>io_cbs := (\<lambda>c w ev. if w = 1 then [ActFeed 1] else [])\<rparr>"

definition one_pending :: uv_loop_t where
  "one_pending = zero_loop\<lparr>pending_queue := [1]\<rparr>"

text \<open>
  A table of capacity 2 with watcher 7 registered for descriptor 0 and the auxiliary slots
  holding 8 and 9; and a loop where watcher 3 has descriptor 5 and is not started yet.
\<close>

definition small_table :: uv_loop_t where
  "small_table = zero_loop\<lparr>watchers := Some [Some 7, None, Some 8, Some 9], nwatchers := 2\<rparr>"

definition fresh_watcher :: uv_loop_t where
  "fresh_watcher = upd_io 3 (\<lambda>x. x\<lparr>fd := 5\<rparr>) zero_loop"

section \<open>Properties\<close>

subsection \<open>Flag bits\<close>

lemma and_or_neq_0: "(f AND (a OR b) \<noteq> 0) = (f AND a \<noteq> 0 \<or> f AND b \<noteq> (0 :: 32 word))"
  by (simp add: bit.conj_disj_distrib or_eq_0_iff)

subsection \<open>Requesting a close twice\<close>

text \<open>
  C7. \<^verbatim>\<open>uv_close\<close> on a handle whose flags already hold \<^verbatim>\<open>UV_CLOSING\<close> or
  \<^verbatim>\<open>UV_CLOSED\<close> fails the assertion at its top, whatever the type of the handle, the
  callback and the rest of the loop are; so a call that gets past the assertion was made
  on a handle that is neither closing nor closed.
\<close>

theorem uv_close_rejects_closing_or_closed:
  assumes "flags (handles l h) AND UV_CLOSING \<noteq> 0 \<or> flags (handles l h) AND UV_CLOSED \<noteq> 0"
  shows "uv_close e h c l = Inl AssertionFailed"
  using assms unfolding uv_close_def and_or_neq_0 by simp

theorem uv_close_rejects_closing_or_closed_witness:
  "flags (handles (upd_handle 7 (\<lambda>x. x\<lparr>flags := UV_CLOSED\<rparr>) zero_loop) 7) AND UV_CLOSED \<noteq> 0
   \<and> uv_close idle_env 7 None (upd_handle 7 (\<lambda>x. x\<lparr>flags := UV_CLOSED\<rparr>) zero_loop)
       = Inl AssertionFailed"
proof -
  have h: "flags (handles (upd_handle 7 (\<lambda>x. x\<lparr>flags := UV_CLOSED\<rparr>) zero_loop) 7) AND UV_CLOSED \<noteq> 0"
    by (simp add: upd_handle_def zero_loop_def UV_CLOSED_def)
  from uv_close_rejects_closing_or_closed [of "upd_handle 7 (\<lambda>x. x\<lparr>flags := UV_CLOSED\<rparr>) zero_loop" 7 idle_env None] h
  show ?thesis by simp
qed

subsection \<open>The poll timeout\<close>

text \<open>
  C5. \<^verbatim>\<open>uv_backend_timeout\<close> is 0 when the stop flag is set (whatever the timers say),
  when the loop is not alive, when an idle handle is queued, or when the closing list is
  not empty; otherwise it is the timer subsystem's \<^verbatim>\<open>uv__next_timeout\<close>.
\<close>

theorem uv_backend_timeout_cases:
  "uv_backend_timeout e l =
     (if stop_flag l \<noteq> 0 \<or> \<not> uv__loop_alive l
         \<or> idle_handles l \<noteq> [] \<or> closing_handles l \<noteq> None
      then 0 else next_timeout e l)
   \<and> (stop_flag l \<noteq> 0 \<longrightarrow> uv_backend_timeout e l = 0)"
  by (auto simp: uv_backend_timeout_def uv__loop_alive_def uv__has_active_handles_def
        uv__has_active_reqs_def)

theorem uv_backend_timeout_cases_witness:
  "uv__loop_alive (zero_loop\<lparr>active_handles := 3\<rparr>)
   \<and> uv_backend_timeout idle_env (zero_loop\<lparr>active_handles := 3\<rparr>) = - 1
   \<and> stop_flag (zero_loop\<lparr>active_handles := 3, stop_flag := 1\<rparr>) \<noteq> 0
   \<and> uv_backend_timeout idle_env (zero_loop\<lparr>active_handles := 3, stop_flag := 1\<rparr>) = 0
   \<and> \<not> uv__loop_alive biased_loop
   \<and> uv_backend_timeout idle_env biased_loop = 0"
  using uv_backend_timeout_cases [of idle_env "zero_loop\<lparr>active_handles := 3\<rparr>"]
    uv_backend_timeout_cases [of idle_env "zero_loop\<lparr>active_handles := 3, stop_flag := 1\<rparr>"]
    uv_backend_timeout_cases [of idle_env biased_loop]
  by (simp add: zero_loop_def idle_env_def biased_loop_def uv__loop_alive_def
        uv__has_active_reqs_def)

subsection \<open>The closing list\<close>

lemma clist_cong:
  "(\<And>x. x \<in> set xs \<Longrightarrow> next_closing (handles l' x) = next_closing (handles l x))
   \<Longrightarrow> clist l' p xs = clist l p xs"
  by (induction xs arbitrary: p) auto

lemma same_core_refl [simp]: "same_core l l k"
  by (simp add: same_core_def)

lemma same_core_trans: "same_core l l1 k \<Longrightarrow> same_core l1 l2 k \<Longrightarrow> same_core l l2 k"
  by (simp add: same_core_def)

lemma flag_or_and: "(f OR a) AND b = (f AND b) OR (a AND (b :: 32 word))"
  by (simp add: bit.conj_disj_distrib2)

lemma closing_upd_closing [simp]:
  "flag_closing (upd_handle h (\<lambda>x. x\<lparr>flags := flags x OR UV_CLOSING, close_cb := c\<rparr>) l) k
   = (k = h \<or> flag_closing l k)"
  by (simp add: flag_closing_def upd_handle_def flag_or_and UV_CLOSING_def or_eq_0_iff)

lemma closed_upd_closing [simp]:
  "flag_closed (upd_handle h (\<lambda>x. x\<lparr>flags := flags x OR UV_CLOSING, close_cb := c\<rparr>) l) k
   = flag_closed l k"
  by (simp add: flag_closed_def upd_handle_def flag_or_and UV_CLOSING_def UV_CLOSED_def)

lemma closing_upd_closed [simp]:
  "flag_closing (upd_handle h (\<lambda>x. x\<lparr>flags := flags x OR UV_CLOSED\<rparr>) l) k = flag_closing l k"
  by (simp add: flag_closing_def upd_handle_def flag_or_and UV_CLOSING_def UV_CLOSED_def)

lemma closed_upd_closed [simp]:
  "flag_closed (upd_handle h (\<lambda>x. x\<lparr>flags := flags x OR UV_CLOSED\<rparr>) l) k = (k = h \<or> flag_closed l k)"
  by (simp add: flag_closed_def upd_handle_def flag_or_and UV_CLOSED_def or_eq_0_iff)

lemma uv__make_close_pending_Inr:
  "uv__make_close_pending h l = Inr l' \<longleftrightarrow>
     flag_closing l h \<and> \<not> flag_closed l h
     \<and> l' = (upd_handle h (\<lambda>x. x\<lparr>next_closing := closing_handles l\<rparr>) l)\<lparr>closing_handles := Some h\<rparr>"
  by (auto simp: uv__make_close_pending_def flag_closing_def flag_closed_def)

lemma closing_upd_next [simp]:
  "flag_closing ((upd_handle h (\<lambda>x. x\<lparr>next_closing := p\<rparr>) l)\<lparr>closing_handles := q\<rparr>) k = flag_closing l k"
  "flag_closed ((upd_handle h (\<lambda>x. x\<lparr>next_closing := p\<rparr>) l)\<lparr>closing_handles := q\<rparr>) k = flag_closed l k"
  by (simp_all add: flag_closing_def flag_closed_def upd_handle_def)

lemma keepsD:
  "keeps_closing_state f \<Longrightarrow> closing_handles (f l) = closing_handles l"
  "keeps_closing_state f \<Longrightarrow> flag_closing (f l) k = flag_closing l k"
  "keeps_closing_state f \<Longrightarrow> flag_closed (f l) k = flag_closed l k"
  "keeps_closing_state f \<Longrightarrow> next_closing (handles (f l) k) = next_closing (handles l k)"
  "keeps_closing_state f \<Longrightarrow> close_cb (handles (f l) k) = close_cb (handles l k)"
  "keeps_closing_state f \<Longrightarrow> handle_type (handles (f l) k) = handle_type (handles l k)"
  by (simp_all add: keeps_closing_state_def same_core_def)

lemma upd_handle_fields [simp]:
  "closing_handles (upd_handle h f l) = closing_handles l"
  "handles (upd_handle h f l) k = (if k = h then f (handles l h) else handles l k)"
  by (simp_all add: upd_handle_def)

lemma uv_close_step:
  assumes "hooks_ok e" and "uv_close e h c l = Inr l'"
  shows "close_step h c l l'"
proof -
  define l1 where "l1 = upd_handle h (\<lambda>x. x\<lparr>flags := flags x OR UV_CLOSING, close_cb := c\<rparr>) l"
  have k: "keeps_closing_state (close_hook e t h)" for t
    using assms(1) by (simp add: hooks_ok_def)
  have pre: "\<not> flag_closing l h" "\<not> flag_closed l h"
    using assms(2) by (auto simp: uv_close_def and_or_neq_0 flag_closing_def flag_closed_def split: if_splits)
  show ?thesis
    using assms(2) pre
    apply (simp add: uv_close_def and_or_neq_0 flag_closing_def[symmetric] flag_closed_def[symmetric] Let_def l1_def[symmetric])
    apply (auto simp: close_step_def uv__make_close_pending_Inr keepsD[OF k] l1_def same_core_def split: uv_handle_type.splits)
    done
qed

lemma uv__io_feed_fields [simp]:
  "handles (uv__io_feed l w) = handles l"
  "closing_handles (uv__io_feed l w) = closing_handles l"
  by (simp_all add: uv__io_feed_def)

lemma closing_feed [simp]:
  "flag_closing (uv__io_feed l w) = flag_closing l" "flag_closed (uv__io_feed l w) = flag_closed l"
  by (simp_all add: flag_closing_def flag_closed_def fun_eq_iff)

lemma clist_feed [simp]: "clist (uv__io_feed l w) p xs = clist l p xs"
  by (rule clist_cong) simp

lemma pend_feed [simp]: "closing_list (uv__io_feed l w) ys = closing_list l ys"
  by (simp add: closing_list_def)

lemma same_core_feed [simp]: "same_core l (uv__io_feed l w) k"
  by (simp add: same_core_def)

lemma pushed_cong:
  "(\<And>k. handle_type (handles l' k) = handle_type (handles l k)) \<Longrightarrow> pushed l' as = pushed l as"
  by (induction l as rule: pushed.induct) auto

lemma close_step_types:
  "close_step h c l l' \<Longrightarrow> handle_type (handles l' k) = handle_type (handles l k)"
  by (cases "k = h") (auto simp: close_step_def same_core_def)

lemma close_step_pend:
  assumes "close_step h c l l'" and "closing_list l N"
  shows "closing_list l' ((if handle_type (handles l h) = UV_SIGNAL then [] else [h]) @ N)"
proof -
  have hN: "h \<notin> set N" using assms by (auto simp: close_step_def closing_list_def)
  have sc: "same_core l l' k" if "k \<in> set N" for k
    using assms(1) that hN by (auto simp: close_step_def)
  have cl: "clist l' p N = clist l p N" for p
    by (rule clist_cong) (use sc in \<open>auto simp: same_core_def\<close>)
  show ?thesis
    using assms hN sc
    by (auto simp: close_step_def closing_list_def cl same_core_def)
qed

lemma exec_post_refl [simp]: "exec_post l l"
  by (simp add: exec_post_def)

lemma exec_post_trans: "exec_post l l1 \<Longrightarrow> exec_post l1 l2 \<Longrightarrow> exec_post l l2"
  unfolding exec_post_def same_core_def by metis

lemma close_step_post: "close_step h c l l' \<Longrightarrow> exec_post l l'"
  unfolding exec_post_def
  apply (intro conjI allI impI)
    apply (auto simp: close_step_def)[1]
   apply (case_tac "k = h"; auto simp: close_step_def same_core_def)[1]
  apply (erule close_step_types)
  done

lemma exec_pend:
  assumes "hooks_ok e"
  shows "exec e as l = Inr l' \<Longrightarrow> closing_list l N \<Longrightarrow>
     closing_list l' (rev (pushed l as) @ N) \<and> exec_post l l'
     \<and> (\<forall>B c. ActClose B c \<in> set as \<longrightarrow> \<not> flag_closing l B \<and> \<not> flag_closed l' B)"
proof (induction as arbitrary: l N)
  case Nil
  then show ?case by simp
next
  case (Cons a as)
  show ?case
  proof (cases a)
    case (ActFeed w)
    with Cons.prems have ex: "exec e as (uv__io_feed l w) = Inr l'" by simp
    from Cons.IH [OF ex] Cons.prems(2)
    have ih: "closing_list l' (rev (pushed (uv__io_feed l w) as) @ N)" "exec_post (uv__io_feed l w) l'"
      "\<forall>B c. ActClose B c \<in> set as \<longrightarrow> \<not> flag_closing (uv__io_feed l w) B \<and> \<not> flag_closed l' B"
      by simp_all
    have "pushed (uv__io_feed l w) as = pushed l as" by (rule pushed_cong) simp
    moreover have "exec_post l l'"
      using ih(2) by (simp add: exec_post_def same_core_def)
    ultimately show ?thesis using ih ActFeed by simp
  next
    case (ActClose h c)
    with Cons.prems obtain l1 where l1: "uv_close e h c l = Inr l1" and ex: "exec e as l1 = Inr l'"
      by (auto split: sum.splits)
    have st: "close_step h c l l1" by (rule uv_close_step [OF assms l1])
    let ?P = "if handle_type (handles l h) = UV_SIGNAL then [] else [h]"
    have p1: "closing_list l1 (?P @ N)" by (rule close_step_pend [OF st Cons.prems(2)])
    from Cons.IH [OF ex p1]
    have ih: "closing_list l' (rev (pushed l1 as) @ ?P @ N)" "exec_post l1 l'"
      "\<forall>B c. ActClose B c \<in> set as \<longrightarrow> \<not> flag_closing l1 B \<and> \<not> flag_closed l' B"
      by simp_all
    have pc: "pushed l1 as = pushed l as"
      by (rule pushed_cong) (rule close_step_types [OF st])
    have post: "exec_post l l'"
      by (rule exec_post_trans [OF close_step_post [OF st] ih(2)])
    have mono: "flag_closing l k \<Longrightarrow> flag_closing l1 k" for k
      using close_step_post [OF st] by (auto simp: exec_post_def same_core_def)
    have hh: "\<not> flag_closing l h" "\<not> flag_closed l' h"
      using st ih(2) by (auto simp: close_step_def exec_post_def)
    show ?thesis
      using ih(1) ih(3) pc post mono hh ActClose by auto
  qed
qed

lemma pushed_set:
  "set (pushed l as) = {B. \<exists>c. ActClose B c \<in> set as \<and> handle_type (handles l B) \<noteq> UV_SIGNAL}"
  by (induction l as rule: pushed.induct) auto

lemma keeps_comp:
  "keeps_closing_state f \<Longrightarrow> keeps_closing_state g \<Longrightarrow> keeps_closing_state (\<lambda>l. f (g l))"
  by (simp add: keeps_closing_state_def same_core_def)

lemma keeps_id: "keeps_closing_state (\<lambda>l. l)"
  by (simp add: keeps_closing_state_def)

lemma finish_switch_keeps:
  assumes "hooks_ok e" and "finish_switch e x l = Inr l2"
  shows "closing_handles l2 = closing_handles l \<and> (\<forall>k. same_core l l2 k)"
proof -
  have "keeps_closing_state (stream_destroy e x)" "keeps_closing_state (udp_finish_close e x)"
    using assms(1) by (simp_all add: hooks_ok_def)
  then have "closing_handles (stream_destroy e x l) = closing_handles l"
     "\<forall>k. same_core l (stream_destroy e x l) k"
     "closing_handles (udp_finish_close e x l) = closing_handles l"
     "\<forall>k. same_core l (udp_finish_close e x l) k"
    by (simp_all add: keeps_closing_state_def)
  with assms(2) show ?thesis
    by (simp add: finish_switch_def split: uv_handle_type.splits) 
qed

lemma uv__finish_close_split:
  assumes "hooks_ok e" and "uv__finish_close e x l = Inr l1"
  obtains l3 where "closing_handles l3 = closing_handles l"
    and "\<And>k. same_core (upd_handle x (\<lambda>y. y\<lparr>flags := flags y OR UV_CLOSED\<rparr>) l) l3 k"
    and "flag_closing l x" and "\<not> flag_closed l x"
    and "exec e (case close_cb (handles l x) of None \<Rightarrow> [] | Some c \<Rightarrow> close_cbs e c x) l3 = Inr l1"
proof -
  let ?l0 = "upd_handle x (\<lambda>y. y\<lparr>flags := flags y OR UV_CLOSED\<rparr>) l"
  have pre: "flag_closing l x" "\<not> flag_closed l x"
    using assms(2) by (auto simp: uv__finish_close_def flag_closing_def flag_closed_def split: if_splits)
  then have pre': "flags (handles l x) AND UV_CLOSING \<noteq> 0" "flags (handles l x) AND UV_CLOSED = 0"
    by (simp_all add: flag_closing_def flag_closed_def)
  from assms(2) pre' obtain l2 where l2: "finish_switch e x ?l0 = Inr l2"
    by (simp add: uv__finish_close_def split: sum.splits)
  let ?l3 = "handle_queue_remove e x (handle_unref e x l2)"
  have k2: "closing_handles l2 = closing_handles ?l0" "\<And>k. same_core ?l0 l2 k"
    using finish_switch_keeps [OF assms(1) l2] by simp_all
  have ku: "keeps_closing_state (handle_unref e x)" and kq: "keeps_closing_state (handle_queue_remove e x)"
    using assms(1) by (simp_all add: hooks_ok_def)
  have k3: "closing_handles ?l3 = closing_handles l"
    using k2(1) by (simp add: keepsD(1) [OF kq] keepsD(1) [OF ku])
  have s3: "same_core ?l0 ?l3 k" for k
  proof -
    have "same_core l2 (handle_unref e x l2) k" using ku by (simp add: keeps_closing_state_def)
    moreover have "same_core (handle_unref e x l2) ?l3 k" using kq by (simp add: keeps_closing_state_def)
    ultimately show ?thesis using k2(2) same_core_trans by blast
  qed
  have cb: "close_cb (handles ?l3 x) = close_cb (handles l x)"
    using s3 [of x] by (simp add: same_core_def)
  have "exec e (case close_cb (handles l x) of None \<Rightarrow> [] | Some c \<Rightarrow> close_cbs e c x) ?l3 = Inr l1"
    using assms(2) pre' l2 cb
    by (simp add: uv__finish_close_def Let_def split: option.splits)
  with k3 s3 pre show thesis by (rule that)
qed

lemma finish_close_step:
  assumes "hooks_ok e" and "closing_list l N" and "x \<notin> set N" and "uv__finish_close e x l = Inr l1"
  shows "\<exists>M. closing_list l1 (M @ N) \<and> flag_closed l1 x \<and> flag_closing l x \<and> \<not> flag_closed l x
     \<and> (\<forall>k. k \<noteq> x \<and> flag_closing l k \<longrightarrow> same_core l l1 k)
     \<and> (\<forall>k. k \<noteq> x \<longrightarrow> flag_closed l1 k = flag_closed l k)
     \<and> (\<forall>k. handle_type (handles l1 k) = handle_type (handles l k))
     \<and> (\<forall>m\<in>set M. \<not> flag_closing l m)
     \<and> (\<forall>cid B c. close_cb (handles l x) = Some cid \<and> ActClose B c \<in> set (close_cbs e cid x)
          \<longrightarrow> \<not> flag_closing l B \<and> \<not> flag_closed l1 B
              \<and> (handle_type (handles l B) \<noteq> UV_SIGNAL \<longrightarrow> B \<in> set M))"
proof -
  let ?l0 = "upd_handle x (\<lambda>y. y\<lparr>flags := flags y OR UV_CLOSED\<rparr>) l"
  let ?as = "case close_cb (handles l x) of None \<Rightarrow> [] | Some c \<Rightarrow> close_cbs e c x"
  from uv__finish_close_split [OF assms(1,4)] obtain l3
    where ch: "closing_handles l3 = closing_handles l" and s3: "\<And>k. same_core ?l0 l3 k"
      and pre: "flag_closing l x" "\<not> flag_closed l x"
      and ex: "exec e ?as l3 = Inr l1"
    by blast
  have f3: "flag_closing l3 k = flag_closing l k"
    "flag_closed l3 k = (k = x \<or> flag_closed l k)"
    "next_closing (handles l3 k) = next_closing (handles l k)"
    "close_cb (handles l3 k) = close_cb (handles l k)"
    "handle_type (handles l3 k) = handle_type (handles l k)" for k
    using s3 [of k] by (simp_all add: same_core_def)
  have cl: "clist l3 p N = clist l p N" for p
    by (rule clist_cong) (simp add: f3)
  have p3: "closing_list l3 N"
    using assms(2,3) by (auto simp: closing_list_def f3 cl ch)
  from exec_pend [OF assms(1) ex p3]
  have r: "closing_list l1 (rev (pushed l3 ?as) @ N)" "exec_post l3 l1"
    "\<forall>B c. ActClose B c \<in> set ?as \<longrightarrow> \<not> flag_closing l3 B \<and> \<not> flag_closed l1 B"
    by simp_all
  have pc: "pushed l3 ?as = pushed l ?as"
    by (rule pushed_cong) (simp add: f3)
  have sc: "same_core l l1 k" if "k \<noteq> x" "flag_closing l k" for k
  proof -
    have "same_core l l3 k" using that by (simp add: same_core_def f3)
    moreover have "same_core l3 l1 k" using r(2) that by (simp add: exec_post_def f3)
    ultimately show ?thesis by (rule same_core_trans)
  qed
  have c1: "flag_closed l1 k = (k = x \<or> flag_closed l k)" for k
    using r(2) by (simp add: exec_post_def f3)
  have t1: "handle_type (handles l1 k) = handle_type (handles l k)" for k
    using r(2) by (simp add: exec_post_def f3)
  have m1: "\<forall>m\<in>set (rev (pushed l ?as)). \<not> flag_closing l m"
    using r(3) by (auto simp: pushed_set f3)
  have a1: "\<not> flag_closing l B \<and> \<not> flag_closed l1 B
              \<and> (handle_type (handles l B) \<noteq> UV_SIGNAL \<longrightarrow> B \<in> set (rev (pushed l ?as)))"
    if "close_cb (handles l x) = Some cid" "ActClose B c \<in> set (close_cbs e cid x)" for cid B c
    using r(3) that by (auto simp: pushed_set f3)
  show ?thesis
    apply (rule exI [of _ "rev (pushed l ?as)"])
    using r(1) pc pre sc c1 t1 m1 a1 apply simp
    apply blast
    done
qed

lemma exec_no_close: "no_close as \<Longrightarrow> \<exists>l'. exec e as l = Inr l'"
proof (induction as arbitrary: l)
  case Nil
  show ?case by simp
next
  case (Cons a as)
  then have "no_close as" by (simp add: no_close_def)
  with Cons.IH have "\<exists>l'. exec e as l1 = Inr l'" for l1 by blast
  with Cons.prems show ?case by (cases a) (auto simp: no_close_def)
qed

lemma finish_switch_ok:
  "closable_type (handle_type (handles l x)) \<Longrightarrow> \<exists>l2. finish_switch e x l = Inr l2"
  by (simp add: finish_switch_def closable_type_def split: uv_handle_type.splits)

lemma finish_close_ok:
  assumes "hooks_ok e" and "flag_closing l x" and "\<not> flag_closed l x"
    and "closable_type (handle_type (handles l x))"
    and "\<forall>cid. close_cb (handles l x) = Some cid \<longrightarrow> no_close (close_cbs e cid x)"
  shows "\<exists>l1. uv__finish_close e x l = Inr l1"
proof -
  let ?l0 = "upd_handle x (\<lambda>y. y\<lparr>flags := flags y OR UV_CLOSED\<rparr>) l"
  have pre': "flags (handles l x) AND UV_CLOSING \<noteq> 0" "flags (handles l x) AND UV_CLOSED = 0"
    using assms(2,3) by (simp_all add: flag_closing_def flag_closed_def)
  have "closable_type (handle_type (handles ?l0 x))" using assms(4) by simp
  from finish_switch_ok [OF this] obtain l2 where l2: "finish_switch e x ?l0 = Inr l2" by blast
  let ?l3 = "handle_queue_remove e x (handle_unref e x l2)"
  have k2: "same_core ?l0 l2 x"
    using finish_switch_keeps [OF assms(1) l2] by simp
  have ku: "keeps_closing_state (handle_unref e x)" and kq: "keeps_closing_state (handle_queue_remove e x)"
    using assms(1) by (simp_all add: hooks_ok_def)
  have cb: "close_cb (handles ?l3 x) = close_cb (handles l x)"
    using k2 by (simp add: keepsD(5) [OF kq] keepsD(5) [OF ku] same_core_def)
  show ?thesis
  proof (cases "close_cb (handles l x)")
    case None
    then show ?thesis using pre' l2 cb by (simp add: uv__finish_close_def Let_def)
  next
    case (Some cid)
    with assms(5) have "no_close (close_cbs e cid x)" by simp
    from exec_no_close [OF this] obtain l1 where "exec e (close_cbs e cid x) ?l3 = Inr l1" by blast
    then show ?thesis using pre' l2 cb Some by (simp add: uv__finish_close_def Let_def)
  qed
qed

lemma closing_loop_inv:
  assumes ok: "hooks_ok e"
  shows "clist l p R \<Longrightarrow> distinct R \<Longrightarrow> \<forall>y\<in>set R. flag_closing l y \<and> \<not> flag_closed l y \<Longrightarrow>
     closing_list l N \<Longrightarrow> set N \<inter> set R = {} \<Longrightarrow>
     \<exists>res. closing_loop e p D l = Some res
        \<and> (\<forall>l' fin. res = Inr (l', fin) \<longrightarrow> fin = D @ R \<and> drain_post e l R N l')
        \<and> (quiet e l R \<longrightarrow> (\<exists>l' fin. res = Inr (l', fin)))"
proof (induction R arbitrary: p D l N)
  case Nil
  then have "p = None" by simp
  then have "closing_loop e p D l = Some (Inr (l, D))"
    by (simp add: closing_loop.simps)
  moreover have "drain_post e l [] N l"
    unfolding drain_post_def using Nil.prems(4) by (intro exI [of _ "[]"]) simp
  ultimately show ?case by simp
next
  case (Cons x R)
  let ?q = "next_closing (handles l x)"
  from Cons.prems(1) have p: "p = Some x" and cq: "clist l ?q R" by simp_all
  have xN: "x \<notin> set N" using Cons.prems(5) by auto
  show ?case
  proof (cases "uv__finish_close e x l")
    case (Inl err)
    then have "closing_loop e p D l = Some (Inl err)"
      using p by (subst closing_loop.simps) simp
    moreover have "\<not> quiet e l (x # R)"
    proof
      assume "quiet e l (x # R)"
      then have "\<exists>l1. uv__finish_close e x l = Inr l1"
        using Cons.prems(3) by (intro finish_close_ok [OF ok]) (simp_all add: quiet_def)
      with Inl show False by simp
    qed
    ultimately show ?thesis by simp
  next
    case (Inr l1)
    then have step: "closing_loop e p D l = closing_loop e ?q (D @ [x]) l1"
      using p by (subst closing_loop.simps) simp
    from finish_close_step [OF ok Cons.prems(4) xN Inr] obtain M1 where
      p1: "closing_list l1 (M1 @ N)" and cx: "flag_closed l1 x"
      and sc: "\<And>k. k \<noteq> x \<Longrightarrow> flag_closing l k \<Longrightarrow> same_core l l1 k"
      and c1: "\<And>k. k \<noteq> x \<Longrightarrow> flag_closed l1 k = flag_closed l k"
      and t1: "\<And>k. handle_type (handles l1 k) = handle_type (handles l k)"
      and m1: "\<forall>m\<in>set M1. \<not> flag_closing l m"
      and a1: "\<And>cid B c. close_cb (handles l x) = Some cid \<Longrightarrow> ActClose B c \<in> set (close_cbs e cid x)
          \<Longrightarrow> \<not> flag_closing l B \<and> \<not> flag_closed l1 B
              \<and> (handle_type (handles l B) \<noteq> UV_SIGNAL \<longrightarrow> B \<in> set M1)"
      by blast
    have xR: "x \<notin> set R" and dR: "distinct R" using Cons.prems(2) by simp_all
    have scR: "same_core l l1 k" if "k \<in> set R" for k
      using that xR Cons.prems(3) by (intro sc) auto
    have cq1: "clist l1 ?q R"
      using cq by (subst clist_cong [of R l1 l]) (use scR in \<open>auto simp: same_core_def\<close>)
    have allR: "\<forall>y\<in>set R. flag_closing l1 y \<and> \<not> flag_closed l1 y"
      using Cons.prems(3) scR by (auto simp: same_core_def)
    have disj: "set (M1 @ N) \<inter> set R = {}"
      using m1 Cons.prems(3,5) by auto
    from Cons.IH [OF cq1 dR allR p1 disj, of "D @ [x]"] obtain res where
      res: "closing_loop e ?q (D @ [x]) l1 = Some res"
      and post: "\<And>l' fin. res = Inr (l', fin) \<Longrightarrow> fin = (D @ [x]) @ R \<and> drain_post e l1 R (M1 @ N) l'"
      and qt: "quiet e l1 R \<Longrightarrow> \<exists>l' fin. res = Inr (l', fin)"
      by blast
    have "\<exists>l' fin. res = Inr (l', fin)" if "quiet e l (x # R)"
    proof -
      have "quiet e l1 R"
        using that scR t1 by (simp add: quiet_def same_core_def)
      then show ?thesis by (rule qt)
    qed
    moreover
    have "fin = D @ x # R \<and> drain_post e l (x # R) N l'" if r: "res = Inr (l', fin)" for l' fin
    proof -
      from post [OF r] have fin: "fin = D @ x # R" and dp: "drain_post e l1 R (M1 @ N) l'"
        by simp_all
      from dp obtain M2 where
        p2: "closing_list l' (M2 @ M1 @ N)"
        and c2: "\<And>k. flag_closed l' k = (k \<in> set R \<or> flag_closed l1 k)"
        and a2: "\<And>A cid B c. A \<in> set R \<Longrightarrow> close_cb (handles l1 A) = Some cid
               \<Longrightarrow> ActClose B c \<in> set (close_cbs e cid A)
             \<Longrightarrow> \<not> flag_closing l1 B \<and> \<not> flag_closed l' B
                 \<and> (handle_type (handles l1 B) \<noteq> UV_SIGNAL \<longrightarrow> B \<in> set M2)"
        unfolding drain_post_def by blast
      have cl: "flag_closed l' k = (k \<in> set (x # R) \<or> flag_closed l k)" for k
        using c2 [of k] c1 [of k] cx by auto
      have acts: "\<not> flag_closing l B \<and> \<not> flag_closed l' B
                 \<and> (handle_type (handles l B) \<noteq> UV_SIGNAL \<longrightarrow> B \<in> set (M2 @ M1))"
        if A: "A \<in> set (x # R)" and cb: "close_cb (handles l A) = Some cid"
          and ac: "ActClose B c \<in> set (close_cbs e cid A)" for A cid B c
      proof (cases "A = x")
        case True
        from a1 [OF cb [unfolded True] ac [unfolded True]]
        have b: "\<not> flag_closing l B" "\<not> flag_closed l1 B"
          "handle_type (handles l B) \<noteq> UV_SIGNAL \<longrightarrow> B \<in> set M1" by simp_all
        have "B \<notin> set R" using b(1) Cons.prems(3) by auto
        then have "\<not> flag_closed l' B" using c2 [of B] b(2) by simp
        with b show ?thesis by simp
      next
        case False
        with A have AR: "A \<in> set R" by simp
        have "close_cb (handles l1 A) = Some cid"
          using scR [OF AR] cb by (simp add: same_core_def)
        from a2 [OF AR this ac]
        have b: "\<not> flag_closing l1 B" "\<not> flag_closed l' B"
          "handle_type (handles l1 B) \<noteq> UV_SIGNAL \<longrightarrow> B \<in> set M2" by simp_all
        have "B \<noteq> x" using b(2) cl [of B] by auto
        then have "\<not> flag_closing l B" using b(1) sc [of B] by (auto simp: same_core_def)
        with b t1 show ?thesis by simp
      qed
      have acts': "\<forall>A cid B c. A \<in> set (x # R) \<and> close_cb (handles l A) = Some cid
               \<and> ActClose B c \<in> set (close_cbs e cid A)
             \<longrightarrow> \<not> flag_closing l B \<and> \<not> flag_closed l' B
                 \<and> (handle_type (handles l B) \<noteq> UV_SIGNAL \<longrightarrow> B \<in> set (M2 @ M1))"
        using acts by blast
      have cl': "\<forall>k. flag_closed l' k = (k \<in> set (x # R) \<or> flag_closed l k)"
        using cl by blast
      have p2': "closing_list l' ((M2 @ M1) @ N)" using p2 by simp
      have "drain_post e l (x # R) N l'"
        unfolding drain_post_def
        by (intro exI [of _ "M2 @ M1"] conjI p2' cl' acts')
      with fin show ?thesis by simp
    qed
    ultimately show ?thesis using res step by simp
  qed
qed

lemma drain_finalizes:
  assumes "hooks_ok e" and "closing_list l xs"
  shows "\<exists>res. uv__run_closing_handles e l = Some res
     \<and> (\<forall>l' fin. res = Inr (l', fin) \<longrightarrow>
           fin = xs \<and> drain_post e (l\<lparr>closing_handles := None\<rparr>) xs [] l')
     \<and> (quiet e l xs \<longrightarrow> (\<exists>l' fin. res = Inr (l', fin)))"
proof -
  let ?l0 = "l\<lparr>closing_handles := None\<rparr>"
  have cl: "clist ?l0 p xs = clist l p xs" for p
    by (rule clist_cong) simp
  have f: "flag_closing ?l0 = flag_closing l" "flag_closed ?l0 = flag_closed l"
    by (simp_all add: flag_closing_def flag_closed_def fun_eq_iff)
  have 1: "clist ?l0 (closing_handles l) xs" using assms(2) by (simp add: closing_list_def cl)
  have 2: "distinct xs" using assms(2) by (simp add: closing_list_def)
  have 3: "\<forall>y\<in>set xs. flag_closing ?l0 y \<and> \<not> flag_closed ?l0 y" using assms(2) by (simp add: closing_list_def f)
  have 4: "closing_list ?l0 []" by (simp add: closing_list_def)
  have q: "quiet e ?l0 xs = quiet e l xs" by (simp add: quiet_def)
  from closing_loop_inv [OF assms(1) 1 2 3 4, of "[]"] show ?thesis
    by (simp add: uv__run_closing_handles_def q)
qed

lemma uv_close_ok:
  assumes "hooks_ok e" and "\<not> flag_closing l h" and "\<not> flag_closed l h"
    and "closable_type (handle_type (handles l h))"
  shows "\<exists>l'. uv_close e h c l = Inr l'"
proof -
  let ?l1 = "upd_handle h (\<lambda>x. x\<lparr>flags := flags x OR UV_CLOSING, close_cb := c\<rparr>) l"
  have k: "keeps_closing_state (close_hook e t h)" for t
    using assms(1) by (simp add: hooks_ok_def)
  have "\<exists>l'. uv__make_close_pending h (close_hook e t h ?l1) = Inr l'" for t
    using assms(3) by (simp add: uv__make_close_pending_Inr keepsD [OF k])
  then show ?thesis
    using assms(2,3,4)
    by (simp add: uv_close_def and_or_neq_0 flag_closing_def[symmetric] flag_closed_def[symmetric] Let_def
          closable_type_def split: uv_handle_type.splits)
qed

lemma exec_closes_ok:
  assumes "hooks_ok e"
  shows "distinct hs \<Longrightarrow>
     \<forall>h\<in>set hs. \<not> flag_closing l h \<and> \<not> flag_closed l h \<and> closable_type (handle_type (handles l h)) \<Longrightarrow>
     \<exists>l1. exec e (map (\<lambda>h. ActClose h (c h)) hs) l = Inr l1"
proof (induction hs arbitrary: l)
  case Nil
  show ?case by simp
next
  case (Cons h hs)
  from uv_close_ok [OF assms, of l h "c h"] Cons.prems(2)
  obtain l' where l': "uv_close e h (c h) l = Inr l'" by auto
  from uv_close_step [OF assms l'] have st: "close_step h (c h) l l'" .
  have "\<forall>k\<in>set hs. \<not> flag_closing l' k \<and> \<not> flag_closed l' k \<and> closable_type (handle_type (handles l' k))"
  proof
    fix k assume k: "k \<in> set hs"
    with Cons.prems(1) have "k \<noteq> h" by auto
    with st have "same_core l l' k" by (simp add: close_step_def)
    with Cons.prems(2) k show "\<not> flag_closing l' k \<and> \<not> flag_closed l' k \<and> closable_type (handle_type (handles l' k))"
      by (simp add: same_core_def)
  qed
  with Cons.IH [of l'] Cons.prems(1) obtain l1
    where "exec e (map (\<lambda>h. ActClose h (c h)) hs) l' = Inr l1" by auto
  with l' show ?case by simp
qed

lemma exec_keeps:
  assumes "hooks_ok e"
  shows "exec e as l = Inr l' \<Longrightarrow> exec_post l l'"
proof (induction as arbitrary: l)
  case Nil
  then show ?case by simp
next
  case (Cons a as)
  show ?case
  proof (cases a)
    case (ActFeed w)
    with Cons.prems have "exec e as (uv__io_feed l w) = Inr l'" by simp
    from Cons.IH [OF this] show ?thesis by (simp add: exec_post_def same_core_def)
  next
    case (ActClose h c)
    with Cons.prems obtain l1 where l1: "uv_close e h c l = Inr l1" and ex: "exec e as l1 = Inr l'"
      by (auto split: sum.splits)
    from close_step_post [OF uv_close_step [OF assms l1]] Cons.IH [OF ex]
    show ?thesis by (rule exec_post_trans)
  qed
qed

lemma exec_close_cb:
  assumes "hooks_ok e"
  shows "exec e as l = Inr l' \<Longrightarrow> ActClose h c \<in> set as \<Longrightarrow> close_cb (handles l' h) = c"
proof (induction as arbitrary: l)
  case Nil
  then show ?case by simp
next
  case (Cons a as)
  show ?case
  proof (cases a)
    case (ActFeed w)
    with Cons show ?thesis by simp
  next
    case (ActClose h' c')
    with Cons.prems obtain l1 where l1: "uv_close e h' c' l = Inr l1" and ex: "exec e as l1 = Inr l'"
      by (auto split: sum.splits)
    show ?thesis
    proof (cases "ActClose h c \<in> set as")
      case True
      from Cons.IH [OF ex True] show ?thesis .
    next
      case False
      with Cons.prems(2) ActClose have eq: "h' = h" "c' = c" by simp_all
      from uv_close_step [OF assms l1] have st: "close_step h c l l1" by (simp add: eq)
      have "flag_closing l1 h" "close_cb (handles l1 h) = c" using st by (simp_all add: close_step_def)
      moreover have "exec_post l1 l'" by (rule exec_keeps [OF assms ex])
      ultimately show ?thesis by (simp add: exec_post_def same_core_def)
    qed
  qed
qed

lemma pushed_closes:
  "\<forall>h\<in>set hs. handle_type (handles l h) \<noteq> UV_SIGNAL \<Longrightarrow>
   pushed l (map (\<lambda>h. ActClose h (c h)) hs) = hs"
  by (induction hs) simp_all

text \<open>
  C1, as the code has it. Handles that are closed in one tick (none of them a signal
  handle, whose enqueueing is deferred, and none with a close callback that closes a
  further handle) are finalized by the drain exactly once each, in the reverse of the
  order in which their close requests enqueued them: \<^verbatim>\<open>uv__make_close_pending\<close> pushes
  at the head of the list and \<^verbatim>\<open>uv__run_closing_handles\<close> walks it from the head.
\<close>

theorem drain_order_is_lifo:
  assumes "hooks_ok e" and "closing_handles l = None" and "distinct hs"
    and "\<forall>h\<in>set hs. \<not> flag_closing l h \<and> \<not> flag_closed l h
           \<and> closable_type (handle_type (handles l h))
           \<and> handle_type (handles l h) \<noteq> UV_SIGNAL"
    and "\<forall>h\<in>set hs. \<forall>cid. c h = Some cid \<longrightarrow> no_close (close_cbs e cid h)"
  shows "drain_after e (map (\<lambda>h. ActClose h (c h)) hs) l = Some (rev hs)"
proof -
  let ?as = "map (\<lambda>h. ActClose h (c h)) hs"
  from exec_closes_ok [OF assms(1,3), of l c] assms(4)
  obtain l1 where l1: "exec e ?as l = Inr l1" by auto
  have "closing_list l []" using assms(2) by (simp add: closing_list_def)
  from exec_pend [OF assms(1) l1 this]
  have p1: "closing_list l1 (rev (pushed l ?as))" and post: "exec_post l l1" by simp_all
  have pu: "pushed l ?as = hs" using assms(4) by (intro pushed_closes) simp
  have q: "quiet e l1 (rev hs)"
    unfolding quiet_def
  proof (intro ballI conjI allI impI)
    fix y assume y: "y \<in> set (rev hs)"
    then show "closable_type (handle_type (handles l1 y))"
      using post assms(4) by (simp add: exec_post_def)
    fix cid assume cb: "close_cb (handles l1 y) = Some cid"
    have "ActClose y (c y) \<in> set ?as" using y by simp
    from exec_close_cb [OF assms(1) l1 this] cb have "c y = Some cid" by simp
    with assms(5) y show "no_close (close_cbs e cid y)" by simp
  qed
  from drain_finalizes [OF assms(1) p1 [unfolded pu]] q
  obtain l2 where "uv__run_closing_handles e l1 = Some (Inr (l2, rev hs))"
    by blast
  with l1 show ?thesis by (simp add: drain_after_def)
qed

text \<open>
  C2. When the close callback of a handle \<open>A\<close> on the closing list closes a handle
  \<open>B\<close>, the drain that finalizes \<open>A\<close> returns or aborts, and if it returns it has not
  finalized \<open>B\<close>: \<open>B\<close> is not closed afterwards and, unless it is a signal handle, it
  is on the closing list that the next drain finalizes.
\<close>

theorem close_in_close_cb_is_deferred:
  assumes "hooks_ok e" and "closing_list l xs" and "A \<in> set xs"
    and "close_cb (handles l A) = Some cid" and "ActClose B c \<in> set (close_cbs e cid A)"
  shows "\<exists>res. uv__run_closing_handles e l = Some res
     \<and> (\<forall>l' fin. res = Inr (l', fin) \<longrightarrow>
          A \<in> set fin \<and> B \<notin> set fin \<and> \<not> flag_closed l' B
          \<and> (handle_type (handles l B) \<noteq> UV_SIGNAL \<longrightarrow>
                (\<exists>ys. closing_list l' ys \<and> B \<in> set ys
                   \<and> (\<forall>l'' fin'. uv__run_closing_handles e l' = Some (Inr (l'', fin'))
                          \<longrightarrow> B \<in> set fin'))))"
proof -
  let ?l0 = "l\<lparr>closing_handles := None\<rparr>"
  from drain_finalizes [OF assms(1,2)] obtain res where
    res: "uv__run_closing_handles e l = Some res"
    and post: "\<And>l' fin. res = Inr (l', fin) \<Longrightarrow> fin = xs \<and> drain_post e ?l0 xs [] l'"
    by blast
  have "A \<in> set fin \<and> B \<notin> set fin \<and> \<not> flag_closed l' B
          \<and> (handle_type (handles l B) \<noteq> UV_SIGNAL \<longrightarrow>
                (\<exists>ys. closing_list l' ys \<and> B \<in> set ys
                   \<and> (\<forall>l'' fin'. uv__run_closing_handles e l' = Some (Inr (l'', fin'))
                          \<longrightarrow> B \<in> set fin')))"
    if r: "res = Inr (l', fin)" for l' fin
  proof -
    from post [OF r] have fin: "fin = xs" and dp: "drain_post e ?l0 xs [] l'" by simp_all
    from dp obtain M where pM0: "closing_list l' (M @ [])"
      and a: "\<And>A cid B c. A \<in> set xs \<Longrightarrow> close_cb (handles ?l0 A) = Some cid
               \<Longrightarrow> ActClose B c \<in> set (close_cbs e cid A)
             \<Longrightarrow> \<not> flag_closing ?l0 B \<and> \<not> flag_closed l' B
                 \<and> (handle_type (handles ?l0 B) \<noteq> UV_SIGNAL \<longrightarrow> B \<in> set M)"
      unfolding drain_post_def by blast
    from pM0 have pM: "closing_list l' M" by simp
    from a [OF assms(3) _ assms(5)] assms(4)
    have b: "\<not> flag_closing ?l0 B" "\<not> flag_closed l' B"
      "handle_type (handles l B) \<noteq> UV_SIGNAL \<longrightarrow> B \<in> set M" by simp_all
    have "\<not> flag_closing l B" using b(1) by (simp add: flag_closing_def)
    then have "B \<notin> set xs" using assms(2) by (auto simp: closing_list_def)
    moreover have "\<forall>l'' fin'. uv__run_closing_handles e l' = Some (Inr (l'', fin')) \<longrightarrow> fin' = M"
      using drain_finalizes [OF assms(1) pM] by auto
    ultimately show ?thesis using fin b assms(3) pM by auto
  qed
  with res show ?thesis by blast
qed

lemma hooks_ok_idle: "hooks_ok idle_env"
  by (simp add: hooks_ok_def keeps_closing_state_def idle_env_def)

lemma hooks_ok_chain: "hooks_ok chain_env"
  by (simp add: hooks_ok_def keeps_closing_state_def idle_env_def chain_env_def)

text \<open>
  Handles 1 and 2 are closed in this order; the drain finalizes 2 before 1.
\<close>

theorem drain_order_fifo_counterexample:
  "drain_after idle_env [ActClose 1 None, ActClose 2 None] zero_loop = Some [2, 1]
   \<and> [2, 1] \<noteq> [1, 2 :: nat]"
  by (simp add: drain_after_def uv_close_def uv__make_close_pending_def upd_handle_def
        uv__run_closing_handles_def closing_loop.simps uv__finish_close_def finish_switch_def
        idle_env_def zero_loop_def zero_handle_def UV_CLOSING_def UV_CLOSED_def Let_def)

theorem drain_order_is_lifo_witness:
  "drain_after idle_env [ActClose 1 None, ActClose 2 None, ActClose 3 None] zero_loop = Some [3, 2, 1]"
  using drain_order_is_lifo [of idle_env zero_loop "[1, 2, 3]" "\<lambda>_. None"] hooks_ok_idle
  by (simp add: zero_loop_def flag_closing_def flag_closed_def closable_type_def zero_handle_def)

lemma one_closing_pend: "closing_list one_closing [1]"
  by (simp add: closing_list_def one_closing_def flag_closing_def flag_closed_def upd_handle_def zero_loop_def
       zero_handle_def UV_CLOSING_def UV_CLOSED_def)

lemma run_one: "\<exists>l'. uv__run_closing_handles chain_env one_closing = Some (Inr (l', [1]))"
  by (simp add: uv_close_def uv__make_close_pending_def upd_handle_def one_closing_def chain_env_def
        uv__run_closing_handles_def closing_loop.simps uv__finish_close_def finish_switch_def
        idle_env_def zero_loop_def zero_handle_def UV_CLOSING_def UV_CLOSED_def Let_def)

theorem close_in_close_cb_is_deferred_witness:
  "\<exists>l' fin. uv__run_closing_handles chain_env one_closing = Some (Inr (l', fin))
      \<and> 1 \<in> set fin \<and> 2 \<notin> set fin \<and> \<not> flag_closed l' 2 \<and> (\<exists>ys. closing_list l' ys \<and> 2 \<in> set ys)"
proof -
  have cb: "close_cb (handles one_closing 1) = Some 0"
    by (simp add: one_closing_def)
  have ac: "ActClose 2 None \<in> set (close_cbs chain_env 0 1)"
    by (simp add: chain_env_def)
  have ty: "handle_type (handles one_closing 2) \<noteq> UV_SIGNAL"
    by (simp add: one_closing_def zero_loop_def zero_handle_def)
  from close_in_close_cb_is_deferred [OF hooks_ok_chain one_closing_pend _ cb ac] run_one ty
  show ?thesis by auto
qed

subsection \<open>Draining the pending queue\<close>

lemma exec_feeds:
  "no_close as \<Longrightarrow>
   \<exists>l' zs. exec e as l = Inr l' \<and> ios l' = ios l \<and> pending_queue l' = pending_queue l @ zs
      \<and> {v. ActFeed v \<in> set as} \<subseteq> set (pending_queue l')"
proof (induction as arbitrary: l)
  case Nil
  show ?case by simp
next
  case (Cons a as)
  then have nc: "no_close as" by (simp add: no_close_def)
  show ?case
  proof (cases a)
    case (ActClose h c)
    with Cons.prems show ?thesis by (auto simp: no_close_def)
  next
    case (ActFeed w)
    let ?l1 = "uv__io_feed l w"
    from Cons.IH [OF nc, of ?l1] obtain l' zs where
      ex: "exec e as ?l1 = Inr l'" and io: "ios l' = ios ?l1"
      and q: "pending_queue l' = pending_queue ?l1 @ zs"
      and f: "{v. ActFeed v \<in> set as} \<subseteq> set (pending_queue l')"
      by blast
    have q1: "\<exists>ys. pending_queue ?l1 = pending_queue l @ ys" and w1: "w \<in> set (pending_queue ?l1)"
      and io1: "ios ?l1 = ios l"
      by (simp_all add: uv__io_feed_def)
    from q1 obtain ys where "pending_queue ?l1 = pending_queue l @ ys" by blast
    with q have "pending_queue l' = pending_queue l @ (ys @ zs)" by simp
    moreover have "{v. ActFeed v \<in> set (a # as)} \<subseteq> set (pending_queue l')"
      using f w1 q ActFeed by auto
    ultimately show ?thesis using ex io io1 ActFeed by auto
  qed
qed

lemma pending_post_step:
  assumes "pending_queue l = w # q" and "ios l2 = ios l" and "pending_queue l2 = q @ zs"
    and "{v. ActFeed v \<in> set (io_cbs e (cb (ios l w)) w UV__POLLOUT)} \<subseteq> set (pending_queue l2)"
    and "pending_post e l2 l' ws"
  shows "pending_post e l l' (w # ws)"
proof -
  from assms(5) obtain rest where e: "pending_queue l' = []" and r: "ws = pending_queue l2 @ rest"
    and c: "\<And>pre w post v. ws = pre @ w # post \<Longrightarrow>
            ActFeed v \<in> set (io_cbs e (cb (ios l2 w)) w UV__POLLOUT) \<Longrightarrow> v \<in> set post"
    unfolding pending_post_def by blast
  have 1: "\<exists>rest. w # ws = pending_queue l @ rest"
    using r assms(1,3) by simp
  have 2: "v \<in> set post"
    if "w # ws = pre @ w' # post" "ActFeed v \<in> set (io_cbs e (cb (ios l w')) w' UV__POLLOUT)"
    for pre w' post v
  proof (cases pre)
    case Nil
    with that have "w' = w" "post = ws" by simp_all
    with that(2) assms(4) r show ?thesis by auto
  next
    case (Cons a pre')
    with that(1) have "ws = pre' @ w' # post" by simp
    from c [OF this] that(2) assms(2) show ?thesis by simp
  qed
  show ?thesis
    unfolding pending_post_def using e 1 2 by blast
qed

lemma run_pending_partial:
  assumes r: "uv__run_pending e calls l = Some r"
  shows "feeds_only e \<longrightarrow>
     (\<exists>l' ws. r = Inr (l', calls @ map (\<lambda>w. (w, UV__POLLOUT)) ws) \<and> pending_post e l l' ws)"
proof (rule uv__run_pending.raw_induct
    [where P = "\<lambda>e calls l r. feeds_only e \<longrightarrow>
     (\<exists>l' ws. r = Inr (l', calls @ map (\<lambda>w. (w, UV__POLLOUT)) ws) \<and> pending_post e l l' ws)", OF _ r])
  fix f :: "env \<Rightarrow> (nat \<times> 32 word) list \<Rightarrow> uv_loop_t
      \<Rightarrow> (error + uv_loop_t \<times> (nat \<times> 32 word) list) option"
  fix e calls l r
  assume ih: "\<And>e calls l y. f e calls l = Some y \<Longrightarrow> feeds_only e \<longrightarrow>
     (\<exists>l' ws. y = Inr (l', calls @ map (\<lambda>w. (w, UV__POLLOUT)) ws) \<and> pending_post e l l' ws)"
  assume st: "(case pending_queue l of [] \<Rightarrow> Some (Inr (l, calls))
      | w # ws \<Rightarrow>
          let l1 = l\<lparr>pending_queue := ws\<rparr>
          in (case exec e (io_cbs e (cb (ios l1 w)) w UV__POLLOUT) l1 of
             Inl x \<Rightarrow> Some (Inl x)
             | Inr l2 \<Rightarrow> f e (calls @ [(w, UV__POLLOUT)]) l2)) = Some r"
  show "feeds_only e \<longrightarrow>
     (\<exists>l' ws. r = Inr (l', calls @ map (\<lambda>w. (w, UV__POLLOUT)) ws) \<and> pending_post e l l' ws)"
  proof
    assume fo: "feeds_only e"
    show "\<exists>l' ws. r = Inr (l', calls @ map (\<lambda>w. (w, UV__POLLOUT)) ws) \<and> pending_post e l l' ws"
    proof (cases "pending_queue l")
      case Nil
      with st have "r = Inr (l, calls)" by simp
      moreover have "pending_post e l l []" using Nil by (simp add: pending_post_def)
      ultimately show ?thesis by (intro exI [of _ l] exI [of _ "[]"]) simp
    next
      case (Cons w q)
      let ?l1 = "l\<lparr>pending_queue := q\<rparr>"
      let ?as = "io_cbs e (cb (ios l w)) w UV__POLLOUT"
      have "no_close ?as" using fo by (simp add: feeds_only_def)
      from exec_feeds [OF this, of e ?l1] obtain l2 zs where
        ex: "exec e ?as ?l1 = Inr l2" and io: "ios l2 = ios l" and q2: "pending_queue l2 = q @ zs"
        and fd: "{v. ActFeed v \<in> set ?as} \<subseteq> set (pending_queue l2)"
        by auto
      from st Cons ex have "f e (calls @ [(w, UV__POLLOUT)]) l2 = Some r" by simp
      from ih [OF this] fo obtain l' ws where
        r: "r = Inr (l', (calls @ [(w, UV__POLLOUT)]) @ map (\<lambda>w. (w, UV__POLLOUT)) ws)"
        and pp: "pending_post e l2 l' ws" by blast
      have "pending_post e l l' (w # ws)"
        by (rule pending_post_step [OF Cons io q2 fd pp])
      with r show ?thesis by (intro exI [of _ l'] exI [of _ "w # ws"]) simp
    qed
  qed
qed

lemma self_feed_last:
  assumes "w \<in> set ws"
    and "\<And>pre post. ws = pre @ w # post \<Longrightarrow> w \<in> set post"
  shows False
proof -
  from assms(1) obtain pre post where "ws = pre @ w # post" "w \<notin> set post"
    by (meson split_list_last)
  with assms(2) show False by blast
qed

lemma run_pending_quiet:
  "\<forall>w\<in>set (pending_queue l). io_cbs e (cb (ios l w)) w UV__POLLOUT = [] \<Longrightarrow>
   uv__run_pending e calls l
     = Some (Inr (l\<lparr>pending_queue := []\<rparr>, calls @ map (\<lambda>w. (w, UV__POLLOUT)) (pending_queue l)))"
proof (induction "pending_queue l" arbitrary: l calls)
  case Nil
  then show ?case by (subst uv__run_pending.simps) simp
next
  case (Cons w q)
  let ?l1 = "l\<lparr>pending_queue := q\<rparr>"
  have "q = pending_queue ?l1" by simp
  moreover have "\<forall>w\<in>set (pending_queue ?l1). io_cbs e (cb (ios ?l1 w)) w UV__POLLOUT = []"
    using Cons.prems Cons.hyps(2) [symmetric] by simp
  ultimately have "uv__run_pending e (calls @ [(w, UV__POLLOUT)]) ?l1
     = Some (Inr (?l1\<lparr>pending_queue := []\<rparr>,
          (calls @ [(w, UV__POLLOUT)]) @ map (\<lambda>w. (w, UV__POLLOUT)) (pending_queue ?l1)))"
    by (rule Cons.hyps(1))
  moreover have "io_cbs e (cb (ios l w)) w UV__POLLOUT = []"
    using Cons.prems Cons.hyps(2) [symmetric] by simp
  ultimately show ?case
    using Cons.hyps(2) [symmetric] by (subst uv__run_pending.simps) simp
qed

lemma self_feed_diverges:
  assumes fo: "feeds_only e" and w: "w \<in> set (pending_queue l)"
    and f: "ActFeed w \<in> set (io_cbs e (cb (ios l w)) w UV__POLLOUT)"
  shows "uv__run_pending e calls l = None"
proof (cases "uv__run_pending e calls l")
  case None
  then show ?thesis .
next
  case (Some r)
  from run_pending_partial [OF this] fo obtain l' ws where
    pp: "pending_post e l l' ws" by auto
  then obtain rest where ws: "ws = pending_queue l @ rest"
    and c: "\<And>pre post. ws = pre @ w # post \<Longrightarrow> w \<in> set post"
    unfolding pending_post_def using f by blast
  have in_ws: "w \<in> set ws" using ws w by simp
  have False
  proof (rule self_feed_last [of w ws])
    show "w \<in> set ws" by (rule in_ws)
  next
    fix pre post assume "ws = pre @ w # post"
    then show "w \<in> set post" by (rule c)
  qed
  then show ?thesis ..
qed

text \<open>
  C3, as the code has it, for watcher callbacks that make no call but \<^verbatim>\<open>uv__io_feed\<close>.
  One drain dequeues and calls, with \<^verbatim>\<open>UV__POLLOUT\<close>, the watchers queued when it starts and
  then the watchers fed while it runs, until the queue is empty: each call is followed
  in the same drain by a call of every watcher it fed. A watcher whose callback feeds
  itself is therefore called again in the current drain, and a drain that reaches such a
  watcher does not return. When the queued callbacks feed nothing, the drain returns
  after calling exactly the queued watchers in queue order.
\<close>

theorem pending_drain_runs_until_empty:
  assumes "feeds_only e"
  shows "(\<forall>r. uv__run_pending e [] l = Some r \<longrightarrow>
            (\<exists>l' ws. r = Inr (l', map (\<lambda>w. (w, UV__POLLOUT)) ws) \<and> pending_queue l' = []
               \<and> (\<exists>rest. ws = pending_queue l @ rest)
               \<and> (\<forall>pre w post v. ws = pre @ w # post
                     \<and> ActFeed v \<in> set (io_cbs e (cb (ios l w)) w UV__POLLOUT) \<longrightarrow> v \<in> set post)))
     \<and> (\<forall>w. w \<in> set (pending_queue l) \<and> ActFeed w \<in> set (io_cbs e (cb (ios l w)) w UV__POLLOUT)
            \<longrightarrow> uv__run_pending e [] l = None)
     \<and> ((\<forall>w\<in>set (pending_queue l). io_cbs e (cb (ios l w)) w UV__POLLOUT = [])
            \<longrightarrow> pending_calls e l = Some (map (\<lambda>w. (w, UV__POLLOUT)) (pending_queue l)))"
proof (intro conjI allI impI)
  fix r assume "uv__run_pending e [] l = Some r"
  from run_pending_partial [OF this] assms
  show "\<exists>l' ws. r = Inr (l', map (\<lambda>w. (w, UV__POLLOUT)) ws) \<and> pending_queue l' = []
               \<and> (\<exists>rest. ws = pending_queue l @ rest)
               \<and> (\<forall>pre w post v. ws = pre @ w # post
                     \<and> ActFeed v \<in> set (io_cbs e (cb (ios l w)) w UV__POLLOUT) \<longrightarrow> v \<in> set post)"
    by (simp add: pending_post_def)
next
  fix w assume w: "w \<in> set (pending_queue l) \<and> ActFeed w \<in> set (io_cbs e (cb (ios l w)) w UV__POLLOUT)"
  show "uv__run_pending e [] l = None"
  proof (cases "uv__run_pending e [] l")
    case None
    then show ?thesis .
  next
    case (Some r)
    from run_pending_partial [OF this] assms obtain l' ws where
      pp: "pending_post e l l' ws" by auto
    then obtain rest where ws: "ws = pending_queue l @ rest"
      and c: "\<And>pre post. ws = pre @ w # post \<Longrightarrow> w \<in> set post"
      unfolding pending_post_def using w by blast
    have in_ws: "w \<in> set ws" using ws w by simp
    have False
    proof (rule self_feed_last [of w ws])
      show "w \<in> set ws" by (rule in_ws)
    next
      fix pre post assume "ws = pre @ w # post"
      then show "w \<in> set post" by (rule c)
    qed
    then show ?thesis ..
  qed
next
  assume "\<forall>w\<in>set (pending_queue l). io_cbs e (cb (ios l w)) w UV__POLLOUT = []"
  from run_pending_quiet [OF this, of "[]"]
  show "pending_calls e l = Some (map (\<lambda>w. (w, UV__POLLOUT)) (pending_queue l))"
    by (simp add: pending_calls_def)
qed

lemma feeds_only_relay: "feeds_only relay_env" "feeds_only refeed_env"
  by (simp_all add: feeds_only_def relay_env_def refeed_env_def no_close_def)

theorem pending_drain_runs_until_empty_witness:
  "pending_calls relay_env (zero_loop\<lparr>pending_queue := [2, 1]\<rparr>)
     = Some [(2, UV__POLLOUT), (1, UV__POLLOUT), (2, UV__POLLOUT)]
   \<and> uv__run_pending refeed_env [] one_pending = None
   \<and> pending_calls refeed_env (zero_loop\<lparr>pending_queue := [2, 3]\<rparr>)
     = Some [(2, UV__POLLOUT), (3, UV__POLLOUT)]"
proof -
  have 1: "pending_calls relay_env (zero_loop\<lparr>pending_queue := [2, 1]\<rparr>)
     = Some [(2, UV__POLLOUT), (1, UV__POLLOUT), (2, UV__POLLOUT)]"
    by (simp add: pending_calls_def uv__run_pending.simps relay_env_def zero_loop_def
       idle_env_def uv__io_feed_def Let_def)
  have 2: "uv__run_pending refeed_env [] one_pending = None"
    using pending_drain_runs_until_empty [OF feeds_only_relay(2), of one_pending]
    by (simp add: one_pending_def refeed_env_def)
  have 3: "pending_calls refeed_env (zero_loop\<lparr>pending_queue := [2, 3]\<rparr>)
     = Some [(2, UV__POLLOUT), (3, UV__POLLOUT)]"
    using pending_drain_runs_until_empty [OF feeds_only_relay(2), of "zero_loop\<lparr>pending_queue := [2, 3]\<rparr>"]
    by (simp add: refeed_env_def)
  from 1 2 3 show ?thesis by simp
qed

text \<open>
  Watcher 1 is queued alone and its callback feeds watcher 2: the same drain calls
  watcher 2, which was not queued when the drain started.
\<close>

theorem pending_drain_snapshot_counterexample:
  "pending_calls relay_env one_pending = Some [(1, UV__POLLOUT), (2, UV__POLLOUT)]
   \<and> 2 \<notin> set (pending_queue one_pending)"
  by (simp add: pending_calls_def uv__run_pending.simps relay_env_def one_pending_def zero_loop_def
       idle_env_def uv__io_feed_def Let_def)

subsection \<open>Interrupted system calls\<close>

lemma syscall_eintr [simp]:
  "syscall (w\<lparr>future := Fail e # s\<rparr>) = Some (- 1, w\<lparr>errno := e, future := s\<rparr>)"
  by (simp add: syscall_def)

lemma syscall_errno: "map_option observed (syscall (w\<lparr>errno := e\<rparr>)) = map_option observed (syscall w)"
  by (simp add: syscall_def observed_def split: list.splits sysres.splits)

lemma nonblock_errno:
  "map_option observed (uv__nonblock (w\<lparr>errno := e\<rparr>) desc on) = map_option observed (uv__nonblock w desc on)"
  by (cases "future w"; simp add: syscall_def observed_def split: sysres.splits)

lemma cloexec_errno:
  "map_option observed (uv__cloexec (w\<lparr>errno := e\<rparr>) desc on) = map_option observed (uv__cloexec w desc on)"
  by (cases "future w"; simp add: syscall_def observed_def split: sysres.splits)

lemma observed_eq_cases:
  assumes "map_option observed a = map_option observed b"
  obtains "a = None" "b = None"
  | r w w' where "a = Some (r, w)" "b = Some (r, w')" "no_accept4 w' = no_accept4 w" "future w' = future w"
  using assms by (cases a; cases b; auto simp: observed_def)

lemma same_but_errno:
  "no_accept4 w' = no_accept4 w \<Longrightarrow> future w' = future w \<Longrightarrow> w' = (w :: world)\<lparr>errno := errno w'\<rparr>"
  by (cases w; cases w'; simp)

lemma world_upd_swap: "(w :: world)\<lparr>future := rs, errno := e\<rparr> = w\<lparr>errno := e, future := rs\<rparr>"
  by (cases w) simp

lemma close_errno:
  "map_option observed (map_option (\<lambda>(rc, w'). (- 1, w')) (syscall (w\<lparr>errno := e\<rparr>)))
   = map_option observed (map_option (\<lambda>(rc, w'). (- 1, w')) (syscall w))"
  by (simp add: syscall_def observed_def split: list.splits sysres.splits)

lemma nonblock_tail_errno:
  "map_option observed (case uv__nonblock (w\<lparr>errno := e\<rparr>) p 1 of None \<Rightarrow> None
      | Some (r2, w2) \<Rightarrow> if r2 \<noteq> 0 then map_option (\<lambda>(rc, w'). (- 1, w')) (syscall w2) else Some (p, w2))
   = map_option observed (case uv__nonblock w p 1 of None \<Rightarrow> None
      | Some (r2, w2) \<Rightarrow> if r2 \<noteq> 0 then map_option (\<lambda>(rc, w'). (- 1, w')) (syscall w2) else Some (p, w2))"
proof (rule observed_eq_cases [OF nonblock_errno [where w=w and e=e and desc=p and on=1]])
  assume "uv__nonblock (w\<lparr>errno := e\<rparr>) p 1 = None" "uv__nonblock w p 1 = None"
  then show ?thesis by simp
next
  fix r a a'
  assume h: "uv__nonblock (w\<lparr>errno := e\<rparr>) p 1 = Some (r, a)" "uv__nonblock w p 1 = Some (r, a')"
    "no_accept4 a' = no_accept4 a" "future a' = future a"
  from same_but_errno [OF h(3,4)] have "a' = a\<lparr>errno := errno a'\<rparr>" .
  then have "map_option observed (map_option (\<lambda>(rc, w'). (- 1, w')) (syscall a'))
   = map_option observed (map_option (\<lambda>(rc, w'). (- 1, w')) (syscall a))"
    using close_errno [where w=a and e="errno a'"] by simp
  with h show ?thesis by (simp add: observed_def)
qed

lemma accept_flags_errno:
  "map_option observed (accept_flags (w\<lparr>errno := e\<rparr>) p) = map_option observed (accept_flags w p)"
proof (rule observed_eq_cases [OF cloexec_errno [where w=w and e=e and desc=p and on=1]])
  assume "uv__cloexec (w\<lparr>errno := e\<rparr>) p 1 = None" "uv__cloexec w p 1 = None"
  then show ?thesis by (simp add: accept_flags_def)
next
  fix r a a'
  assume h: "uv__cloexec (w\<lparr>errno := e\<rparr>) p 1 = Some (r, a)" "uv__cloexec w p 1 = Some (r, a')"
    "no_accept4 a' = no_accept4 a" "future a' = future a"
  from same_but_errno [OF h(3,4)] have a': "a' = a\<lparr>errno := errno a'\<rparr>" .
  show ?thesis
  proof (cases "r \<noteq> 0")
    case True
    have "map_option observed (map_option (\<lambda>(rc, w'). (- 1, w')) (syscall a'))
        = map_option observed (map_option (\<lambda>(rc, w'). (- 1, w')) (syscall a))"
      using close_errno [where w=a and e="errno a'"] a' by simp
    with h True show ?thesis by (simp add: accept_flags_def)
  next
    case False
    have "map_option observed (case uv__nonblock a' p 1 of None \<Rightarrow> None
      | Some (r2, w2) \<Rightarrow> if r2 \<noteq> 0 then map_option (\<lambda>(rc, w'). (- 1, w')) (syscall w2) else Some (p, w2))
        = map_option observed (case uv__nonblock a p 1 of None \<Rightarrow> None
      | Some (r2, w2) \<Rightarrow> if r2 \<noteq> 0 then map_option (\<lambda>(rc, w'). (- 1, w')) (syscall w2) else Some (p, w2))"
      using nonblock_tail_errno [where w=a and e="errno a'" and p=p] a' by simp
    with h False show ?thesis by (simp add: accept_flags_def)
  qed
qed

lemma accept_errno:
  "map_option observed (accept_skip (w\<lparr>errno := e\<rparr>) sockfd) = map_option observed (accept_skip w sockfd)"
  "map_option observed (accept_loop (w\<lparr>errno := e\<rparr>) sockfd) = map_option observed (accept_loop w sockfd)"
proof -
  show sk: "map_option observed (accept_skip (w\<lparr>errno := e\<rparr>) sockfd) = map_option observed (accept_skip w sockfd)"
    for w e
  proof (cases "future w")
    case Nil
    then show ?thesis by (simp add: syscall_def)
  next
    case (Cons x rs)
    show ?thesis
    proof (cases x)
      case (Ret v)
      from accept_flags_errno [where w="w\<lparr>future := rs\<rparr>" and e=e and p="int v"]
      have "map_option observed (accept_flags (w\<lparr>errno := e, future := rs\<rparr>) (int v))
          = map_option observed (accept_flags (w\<lparr>future := rs\<rparr>) (int v))"
        by (simp add: world_upd_swap)
      with Cons Ret show ?thesis
        by (simp add: syscall_def)
    next
      case (Fail x)
      with Cons show ?thesis by (simp add: syscall_def)
    qed
  qed
  show "map_option observed (accept_loop (w\<lparr>errno := e\<rparr>) sockfd) = map_option observed (accept_loop w sockfd)"
  proof (cases "no_accept4 w")
    case True
    with sk [where w=w and e=e] show ?thesis by simp
  next
    case False
    then show ?thesis
      by (cases "future w"; simp add: syscall_def observed_def split: sysres.splits)
  qed
qed


lemma retry_unfold:
  "uv__nonblock (w\<lparr>future := Fail EINTR # s\<rparr>) desc on = uv__nonblock (w\<lparr>errno := EINTR, future := s\<rparr>) desc on"
  "uv__cloexec (w\<lparr>future := Fail EINTR # s\<rparr>) desc on = uv__cloexec (w\<lparr>errno := EINTR, future := s\<rparr>) desc on"
  "accept_loop (w\<lparr>future := Fail EINTR # s\<rparr>) sockfd = accept_loop (w\<lparr>errno := EINTR, future := s\<rparr>) sockfd"
  by (simp_all add: syscall_def)

lemma interrupted_prefix:
  "map_option observed (uv__nonblock (w\<lparr>future := replicate k (Fail EINTR) @ s\<rparr>) desc on)
     = map_option observed (uv__nonblock (w\<lparr>future := s\<rparr>) desc on)"
  "map_option observed (uv__cloexec (w\<lparr>future := replicate k (Fail EINTR) @ s\<rparr>) desc on)
     = map_option observed (uv__cloexec (w\<lparr>future := s\<rparr>) desc on)"
  "map_option observed (accept_loop (w\<lparr>future := replicate k (Fail EINTR) @ s\<rparr>) sockfd)
     = map_option observed (accept_loop (w\<lparr>future := s\<rparr>) sockfd)"
proof (induction k arbitrary: w)
  case 0
  { case 1 show ?case by simp
  next case 2 show ?case by simp
  next case 3 show ?case by simp }
next
  case (Suc k)
  { case 1
    have "uv__nonblock (w\<lparr>future := replicate (Suc k) (Fail EINTR) @ s\<rparr>) desc on
        = uv__nonblock ((w\<lparr>errno := EINTR\<rparr>)\<lparr>future := replicate k (Fail EINTR) @ s\<rparr>) desc on"
      using retry_unfold(1) [where w=w and s="replicate k (Fail EINTR) @ s"] by simp
    also have "map_option observed \<dots> = map_option observed (uv__nonblock ((w\<lparr>errno := EINTR\<rparr>)\<lparr>future := s\<rparr>) desc on)"
      by (rule Suc.IH(1))
    also have "\<dots> = map_option observed (uv__nonblock (w\<lparr>future := s\<rparr>) desc on)"
      using nonblock_errno [where w="w\<lparr>future := s\<rparr>" and e=EINTR] by (simp add: world_upd_swap)
    finally show ?case .
  next
    case 2
    have "uv__cloexec (w\<lparr>future := replicate (Suc k) (Fail EINTR) @ s\<rparr>) desc on
        = uv__cloexec ((w\<lparr>errno := EINTR\<rparr>)\<lparr>future := replicate k (Fail EINTR) @ s\<rparr>) desc on"
      using retry_unfold(2) [where w=w and s="replicate k (Fail EINTR) @ s"] by simp
    also have "map_option observed \<dots> = map_option observed (uv__cloexec ((w\<lparr>errno := EINTR\<rparr>)\<lparr>future := s\<rparr>) desc on)"
      by (rule Suc.IH(2))
    also have "\<dots> = map_option observed (uv__cloexec (w\<lparr>future := s\<rparr>) desc on)"
      using cloexec_errno [where w="w\<lparr>future := s\<rparr>" and e=EINTR] by (simp add: world_upd_swap)
    finally show ?case .
  next
    case 3
    have "accept_loop (w\<lparr>future := replicate (Suc k) (Fail EINTR) @ s\<rparr>) sockfd
        = accept_loop ((w\<lparr>errno := EINTR\<rparr>)\<lparr>future := replicate k (Fail EINTR) @ s\<rparr>) sockfd"
      using retry_unfold(3) [where w=w and s="replicate k (Fail EINTR) @ s"] by simp
    also have "map_option observed \<dots> = map_option observed (accept_loop ((w\<lparr>errno := EINTR\<rparr>)\<lparr>future := s\<rparr>) sockfd)"
      by (rule Suc.IH(3))
    also have "\<dots> = map_option observed (accept_loop (w\<lparr>future := s\<rparr>) sockfd)"
      using accept_errno(2) [where w="w\<lparr>future := s\<rparr>" and e=EINTR] by (simp add: world_upd_swap)
    finally show ?case .
  }
qed

lemma never_eintr:
  "uv__nonblock w desc on = Some (r, w') \<Longrightarrow> \<not> (r = - 1 \<and> errno w' = EINTR)"
  "uv__cloexec w desc on = Some (r, w') \<Longrightarrow> \<not> (r = - 1 \<and> errno w' = EINTR)"
proof -
  show "uv__nonblock w desc on = Some (r, w') \<Longrightarrow> \<not> (r = - 1 \<and> errno w' = EINTR)"
    by (induction w desc on rule: uv__nonblock.induct)
       (subst (asm) uv__nonblock.simps, auto split: option.splits if_splits simp del: uv__nonblock.simps)
  show "uv__cloexec w desc on = Some (r, w') \<Longrightarrow> \<not> (r = - 1 \<and> errno w' = EINTR)"
    by (induction w desc on rule: uv__cloexec.induct)
       (subst (asm) uv__cloexec.simps, auto split: option.splits if_splits simp del: uv__cloexec.simps)
qed

lemma ioctl_returns:
  "\<exists>x\<in>set (future w). x \<noteq> Fail EINTR \<Longrightarrow> uv__nonblock w desc on \<noteq> None"
  "\<exists>x\<in>set (future w). x \<noteq> Fail EINTR \<Longrightarrow> uv__cloexec w desc on \<noteq> None"
proof -
  show "\<exists>x\<in>set (future w). x \<noteq> Fail EINTR \<Longrightarrow> uv__nonblock w desc on \<noteq> None"
  proof (induction "future w" arbitrary: w)
    case Nil
    then show ?case by simp
  next
    case (Cons a s)
    from Cons(2) [symmetric] have f: "future w = a # s" .
    show ?case
    proof (cases "a = Fail EINTR")
      case True
      with Cons(3) f have "\<exists>x\<in>set (future (w\<lparr>errno := EINTR, future := s\<rparr>)). x \<noteq> Fail EINTR"
        by auto
      moreover have "s = future (w\<lparr>errno := EINTR, future := s\<rparr>)" by simp
      ultimately have "uv__nonblock (w\<lparr>errno := EINTR, future := s\<rparr>) desc on \<noteq> None"
        by (rule Cons(1) [rotated])
      with True f show ?thesis by (simp add: syscall_def)
    next
      case False
      with f show ?thesis by (cases a) (auto simp: syscall_def)
    qed
  qed
  show "\<exists>x\<in>set (future w). x \<noteq> Fail EINTR \<Longrightarrow> uv__cloexec w desc on \<noteq> None"
  proof (induction "future w" arbitrary: w)
    case Nil
    then show ?case by simp
  next
    case (Cons a s)
    from Cons(2) [symmetric] have f: "future w = a # s" .
    show ?case
    proof (cases "a = Fail EINTR")
      case True
      with Cons(3) f have "\<exists>x\<in>set (future (w\<lparr>errno := EINTR, future := s\<rparr>)). x \<noteq> Fail EINTR"
        by auto
      moreover have "s = future (w\<lparr>errno := EINTR, future := s\<rparr>)" by simp
      ultimately have "uv__cloexec (w\<lparr>errno := EINTR, future := s\<rparr>) desc on \<noteq> None"
        by (rule Cons(1) [rotated])
      with True f show ?thesis by (simp add: syscall_def)
    next
      case False
      with f show ?thesis by (cases a) (auto simp: syscall_def)
    qed
  qed
qed

subsection \<open>Interruptions inside the helpers\<close>

lemma accept_flags_retry_unfold:
  "accept_flags (w\<lparr>future := Fail EINTR # s\<rparr>) p = accept_flags (w\<lparr>errno := EINTR, future := s\<rparr>) p"
  unfolding accept_flags_def retry_unfold(2) ..

lemma accept_flags_prefix:
  "map_option observed (accept_flags (w\<lparr>future := replicate k (Fail EINTR) @ s\<rparr>) p)
     = map_option observed (accept_flags (w\<lparr>future := s\<rparr>) p)"
proof (induction k arbitrary: w)
  case 0
  show ?case by simp
next
  case (Suc k)
  have "accept_flags (w\<lparr>future := replicate (Suc k) (Fail EINTR) @ s\<rparr>) p
      = accept_flags ((w\<lparr>errno := EINTR\<rparr>)\<lparr>future := replicate k (Fail EINTR) @ s\<rparr>) p"
    using accept_flags_retry_unfold [where w=w and s="replicate k (Fail EINTR) @ s"] by simp
  also have "map_option observed \<dots>
      = map_option observed (accept_flags ((w\<lparr>errno := EINTR\<rparr>)\<lparr>future := s\<rparr>) p)"
    by (rule Suc.IH)
  also have "\<dots> = map_option observed (accept_flags (w\<lparr>future := s\<rparr>) p)"
    using accept_flags_errno [where w="w\<lparr>future := s\<rparr>" and e=EINTR] by (simp add: world_upd_swap)
  finally show ?case .
qed

lemma nonblock_tail_prefix:
  "map_option observed (case uv__nonblock (w\<lparr>future := replicate k (Fail EINTR) @ s\<rparr>) p 1 of None \<Rightarrow> None
      | Some (r2, w2) \<Rightarrow> if r2 \<noteq> 0 then map_option (\<lambda>(rc, w'). (- 1, w')) (syscall w2) else Some (p, w2))
   = map_option observed (case uv__nonblock (w\<lparr>future := s\<rparr>) p 1 of None \<Rightarrow> None
      | Some (r2, w2) \<Rightarrow> if r2 \<noteq> 0 then map_option (\<lambda>(rc, w'). (- 1, w')) (syscall w2) else Some (p, w2))"
proof (induction k arbitrary: w)
  case 0
  show ?case by simp
next
  case (Suc k)
  have u: "uv__nonblock (w\<lparr>future := replicate (Suc k) (Fail EINTR) @ s\<rparr>) p 1
      = uv__nonblock ((w\<lparr>errno := EINTR\<rparr>)\<lparr>future := replicate k (Fail EINTR) @ s\<rparr>) p 1"
    using retry_unfold(1) [where w=w and s="replicate k (Fail EINTR) @ s"] by simp
  show ?case
    unfolding u Suc.IH
    using nonblock_tail_errno [where w="w\<lparr>future := s\<rparr>" and e=EINTR and p=p]
    by (simp add: world_upd_swap)
qed

lemma accept_flags_second_step:
  "map_option observed (accept_flags (w\<lparr>future := Ret 0 # replicate k (Fail EINTR) @ s\<rparr>) p)
     = map_option observed (accept_flags (w\<lparr>future := Ret 0 # s\<rparr>) p)"
proof -
  have c: "uv__cloexec (w\<lparr>future := Ret 0 # t\<rparr>) p 1 = Some (0, w\<lparr>future := t\<rparr>)" for t
    by (simp add: syscall_def)
  show ?thesis
    unfolding accept_flags_def c using nonblock_tail_prefix [where w=w and k=k and s=s and p=p] by simp
qed

text \<open>The same for the close-on-exec step of uv__dup.\<close>

lemma dup_tail_errno:
  "map_option observed (case uv__cloexec (w\<lparr>errno := e\<rparr>) p 1 of None \<Rightarrow> None
      | Some (r, w2) \<Rightarrow> if r \<noteq> 0
          then map_option (\<lambda>(rc, w'). (- 1, w'\<lparr>errno := errno w2\<rparr>)) (syscall w2) else Some (p, w2))
   = map_option observed (case uv__cloexec w p 1 of None \<Rightarrow> None
      | Some (r, w2) \<Rightarrow> if r \<noteq> 0
          then map_option (\<lambda>(rc, w'). (- 1, w'\<lparr>errno := errno w2\<rparr>)) (syscall w2) else Some (p, w2))"
proof (rule observed_eq_cases [OF cloexec_errno [where w=w and e=e and desc=p and on=1]])
  assume "uv__cloexec (w\<lparr>errno := e\<rparr>) p 1 = None" "uv__cloexec w p 1 = None"
  then show ?thesis by simp
next
  fix r a a'
  assume h: "uv__cloexec (w\<lparr>errno := e\<rparr>) p 1 = Some (r, a)" "uv__cloexec w p 1 = Some (r, a')"
    "no_accept4 a' = no_accept4 a" "future a' = future a"
  have "map_option observed (map_option (\<lambda>(rc, w'). (- 1, w'\<lparr>errno := errno a'\<rparr>)) (syscall a'))
   = map_option observed (map_option (\<lambda>(rc, w'). (- 1, w'\<lparr>errno := errno a\<rparr>)) (syscall a))"
    using h(3,4) by (simp add: syscall_def observed_def split: list.splits sysres.splits)
  with h show ?thesis by (simp add: observed_def)
qed

lemma dup_tail_prefix:
  "map_option observed (case uv__cloexec (w\<lparr>future := replicate k (Fail EINTR) @ s\<rparr>) p 1 of None \<Rightarrow> None
      | Some (r, w2) \<Rightarrow> if r \<noteq> 0
          then map_option (\<lambda>(rc, w'). (- 1, w'\<lparr>errno := errno w2\<rparr>)) (syscall w2) else Some (p, w2))
   = map_option observed (case uv__cloexec (w\<lparr>future := s\<rparr>) p 1 of None \<Rightarrow> None
      | Some (r, w2) \<Rightarrow> if r \<noteq> 0
          then map_option (\<lambda>(rc, w'). (- 1, w'\<lparr>errno := errno w2\<rparr>)) (syscall w2) else Some (p, w2))"
proof (induction k arbitrary: w)
  case 0
  show ?case by simp
next
  case (Suc k)
  have u: "uv__cloexec (w\<lparr>future := replicate (Suc k) (Fail EINTR) @ s\<rparr>) p 1
      = uv__cloexec ((w\<lparr>errno := EINTR\<rparr>)\<lparr>future := replicate k (Fail EINTR) @ s\<rparr>) p 1"
    using retry_unfold(2) [where w=w and s="replicate k (Fail EINTR) @ s"] by simp
  show ?case
    unfolding u Suc.IH
    using dup_tail_errno [where w="w\<lparr>future := s\<rparr>" and e=EINTR and p=p]
    by (simp add: world_upd_swap)
qed

lemma dup_second_step:
  "map_option observed (uv__dup (w\<lparr>future := Ret v # replicate k (Fail EINTR) @ s\<rparr>) desc)
     = map_option observed (uv__dup (w\<lparr>future := Ret v # s\<rparr>) desc)"
proof -
  have d: "syscall (w\<lparr>future := Ret v # t\<rparr>) = Some (int v, w\<lparr>future := t\<rparr>)" for t
    by (simp add: syscall_def)
  show ?thesis
    unfolding uv__dup_def d using dup_tail_prefix [where w=w and k=k and s=s and p="int v"] by simp
qed


lemma accept_skip_accepted:
  "no_accept4 w \<Longrightarrow> accept_loop (w\<lparr>future := Ret v # t\<rparr>) sockfd = accept_flags (w\<lparr>future := t\<rparr>) (int v)"
  by (simp add: syscall_def)

lemma accept_all_steps_retried:
  assumes n: "no_accept4 w" and d: "0 \<le> sockfd"
  shows "map_option (map_sum id observed)
           (uv__accept (w\<lparr>future := replicate i (Fail EINTR) @ Ret v # replicate k (Fail EINTR)
                           @ Ret 0 # replicate j (Fail EINTR) @ Ret 0 # s\<rparr>) sockfd)
         = Some (Inr (int v, True, s))"
proof -
  let ?t2 = "replicate j (Fail EINTR) @ Ret 0 # s"
  let ?t1 = "replicate k (Fail EINTR) @ Ret 0 # ?t2"
  have m: "map_option (map_sum id observed) (map_option Inr a) = map_option Inr (map_option observed a)"
    for a :: "(int \<times> world) option" and dummy :: error
    by (cases a) simp_all
  have "map_option observed (accept_loop (w\<lparr>future := replicate i (Fail EINTR) @ Ret v # ?t1\<rparr>) sockfd)
      = map_option observed (accept_loop (w\<lparr>future := Ret v # ?t1\<rparr>) sockfd)"
    by (rule interrupted_prefix(3))
  also have "\<dots> = map_option observed (accept_flags (w\<lparr>future := ?t1\<rparr>) (int v))"
    by (simp only: accept_skip_accepted [OF n])
  also have "\<dots> = map_option observed (accept_flags (w\<lparr>future := Ret 0 # ?t2\<rparr>) (int v))"
    by (rule accept_flags_prefix)
  also have "\<dots> = map_option observed (accept_flags (w\<lparr>future := Ret 0 # Ret 0 # s\<rparr>) (int v))"
    by (rule accept_flags_second_step)
  also have "\<dots> = Some (int v, True, s)"
    using n by (simp add: accept_flags_def syscall_def observed_def)
  finally show ?thesis
    using d unfolding uv__accept_def by (simp only: m not_not if_False not_True_eq_False option.map)
qed

lemma accept_rollback_interrupted:
  assumes n: "no_accept4 w" and d: "0 \<le> sockfd" and e: "e \<noteq> EINTR"
  shows "uv__accept (w\<lparr>future := Ret v # Fail e # Fail EINTR # s\<rparr>) sockfd
           = Some (Inr (- 1, w\<lparr>errno := EINTR, future := s\<rparr>))"
proof -
  have "accept_loop (w\<lparr>future := Ret v # Fail e # Fail EINTR # s\<rparr>) sockfd
      = accept_flags (w\<lparr>future := Fail e # Fail EINTR # s\<rparr>) (int v)"
    by (rule accept_skip_accepted [OF n])
  also have "\<dots> = Some (- 1, w\<lparr>errno := EINTR, future := s\<rparr>)"
    using e by (simp add: accept_flags_def syscall_def)
  finally show ?thesis using d unfolding uv__accept_def by (simp only: not_not if_False not_True_eq_False option.map)
qed

lemma dup_rollback_interrupted:
  assumes e: "e \<noteq> EINTR"
  shows "uv__dup (w\<lparr>future := Ret v # Fail e # Fail EINTR # s\<rparr>) desc
           = Some (- 1, w\<lparr>errno := e, future := s\<rparr>)"
  using e by (simp add: uv__dup_def syscall_def)

text \<open>Every helper consumes a prefix of the outcomes.\<close>

lemma syscall_consumes:
  "syscall w = Some (r, w') \<Longrightarrow>
     (\<exists>v. future w = Ret v # future w' \<and> r = int v \<and> errno w' = errno w)
     \<or> (\<exists>e. future w = Fail e # future w' \<and> r = - 1 \<and> errno w' = e)"
  by (auto simp: syscall_def split: list.splits sysres.splits)

lemma syscall_suffix: "syscall w = Some (r, w') \<Longrightarrow> \<exists>c. future w = c @ future w'"
proof -
  assume "syscall w = Some (r, w')"
  from syscall_consumes [OF this] obtain x where "future w = [x] @ future w'" by auto
  then show ?thesis by blast
qed

lemma ioctl_suffix:
  "uv__nonblock w desc on = Some (r, w') \<Longrightarrow> \<exists>c. future w = c @ future w'"
  "uv__cloexec w desc on = Some (r, w') \<Longrightarrow> \<exists>c. future w = c @ future w'"
proof -
  show "uv__nonblock w desc on = Some (r, w') \<Longrightarrow> \<exists>c. future w = c @ future w'"
  proof (induction w desc on rule: uv__nonblock.induct)
    case (1 w desc on)
    from 1(2) obtain r1 w1 where s: "syscall w = Some (r1, w1)"
      by (subst (asm) uv__nonblock.simps) (auto split: option.splits simp del: uv__nonblock.simps)
    from syscall_suffix [OF s] obtain c1 where c1: "future w = c1 @ future w1" by blast
    show ?case
    proof (cases "r1 = - 1 \<and> errno w1 = EINTR")
      case True
      with 1(2) s have "uv__nonblock w1 desc on = Some (r, w')"
        by (subst (asm) uv__nonblock.simps) (simp del: uv__nonblock.simps)
      from 1(1) [OF s refl True this] obtain c where "future w1 = c @ future w'" by blast
      with c1 have "future w = (c1 @ c) @ future w'" by simp
      then show ?thesis by blast
    next
      case False
      with 1(2) s have "w' = w1" by (subst (asm) uv__nonblock.simps) (auto simp del: uv__nonblock.simps)
      with c1 show ?thesis by blast
    qed
  qed
  show "uv__cloexec w desc on = Some (r, w') \<Longrightarrow> \<exists>c. future w = c @ future w'"
  proof (induction w desc on rule: uv__cloexec.induct)
    case (1 w desc on)
    from 1(2) obtain r1 w1 where s: "syscall w = Some (r1, w1)"
      by (subst (asm) uv__cloexec.simps) (auto split: option.splits simp del: uv__cloexec.simps)
    from syscall_suffix [OF s] obtain c1 where c1: "future w = c1 @ future w1" by blast
    show ?case
    proof (cases "r1 = - 1 \<and> errno w1 = EINTR")
      case True
      with 1(2) s have "uv__cloexec w1 desc on = Some (r, w')"
        by (subst (asm) uv__cloexec.simps) (simp del: uv__cloexec.simps)
      from 1(1) [OF s refl True this] obtain c where "future w1 = c @ future w'" by blast
      with c1 have "future w = (c1 @ c) @ future w'" by simp
      then show ?thesis by blast
    next
      case False
      with 1(2) s have "w' = w1" by (subst (asm) uv__cloexec.simps) (auto simp del: uv__cloexec.simps)
      with c1 show ?thesis by blast
    qed
  qed
qed


lemma accept_flags_suffix:
  assumes "accept_flags w p = Some (r, w')"
  shows "\<exists>c. future w = c @ future w'"
proof -
  from assms obtain r1 w1 where c1: "uv__cloexec w p 1 = Some (r1, w1)"
    by (auto simp: accept_flags_def split: option.splits simp del: uv__cloexec.simps uv__nonblock.simps)
  from ioctl_suffix(2) [OF c1] obtain a where a: "future w = a @ future w1" by blast
  show ?thesis
  proof (cases "r1 \<noteq> 0")
    case True
    with assms c1 obtain rc where "syscall w1 = Some (rc, w')"
      by (auto simp: accept_flags_def simp del: uv__cloexec.simps uv__nonblock.simps)
    from syscall_suffix [OF this] obtain b where "future w1 = b @ future w'" by blast
    with a have "future w = (a @ b) @ future w'" by simp
    then show ?thesis by blast
  next
    case False
    with assms c1 obtain r2 w2 where c2: "uv__nonblock w1 p 1 = Some (r2, w2)"
      and rest: "(if r2 \<noteq> 0 then map_option (\<lambda>(rc, w'). (- 1, w')) (syscall w2) else Some (p, w2)) = Some (r, w')"
      by (auto simp: accept_flags_def split: option.splits simp del: uv__cloexec.simps uv__nonblock.simps)
    from ioctl_suffix(1) [OF c2] obtain b where b: "future w1 = b @ future w2" by blast
    show ?thesis
    proof (cases "r2 \<noteq> 0")
      case True
      with rest obtain rc where "syscall w2 = Some (rc, w')" by auto
      from syscall_suffix [OF this] obtain c where "future w2 = c @ future w'" by blast
      with a b have "future w = (a @ b @ c) @ future w'" by simp
      then show ?thesis by blast
    next
      case False
      with rest have "w' = w2" by simp
      with a b have "future w = (a @ b) @ future w'" by simp
      then show ?thesis by blast
    qed
  qed
qed

lemma accept_eintr_origin:
  "accept_loop w sockfd = Some (r, w') \<Longrightarrow>
     \<exists>c. future w = c @ future w' \<and> (r = - 1 \<and> errno w' = EINTR \<longrightarrow> (\<exists>v. Ret v \<in> set c))"
  "accept_skip w sockfd = Some (r, w') \<Longrightarrow>
     \<exists>c. future w = c @ future w' \<and> (r = - 1 \<and> errno w' = EINTR \<longrightarrow> (\<exists>v. Ret v \<in> set c))"
proof (induction w sockfd and w sockfd rule: accept_loop_accept_skip.induct)
  case (1 w sockfd)
  note A = 1(4)
  show ?case
  proof (cases "no_accept4 w")
    case True
    with A have "accept_skip w sockfd = Some (r, w')"
      by (subst (asm) accept_loop.simps) (simp only: if_True)
    from 1(1) [OF True this] show ?thesis .
  next
    case False
    with A have B: "(case syscall w of None \<Rightarrow> None
      | Some (peerfd, w1) \<Rightarrow>
          if peerfd \<noteq> - 1 then Some (peerfd, w1)
          else if errno w1 = EINTR then accept_loop w1 sockfd
               else if errno w1 \<noteq> ENOSYS then Some (peerfd, w1)
                    else accept_skip (w1\<lparr>no_accept4 := True\<rparr>) sockfd) = Some (r, w')"
      by (subst (asm) accept_loop.simps) (simp only: if_False)
    then obtain x y where s: "syscall w = Some (x, y)"
      by (cases "syscall w") (auto simp del: accept_loop.simps accept_skip.simps)
    from syscall_consumes [OF s] obtain o1 where c1: "future w = o1 # future y"
      and f: "x = - 1 \<longrightarrow> (\<exists>e. o1 = Fail e)" by auto
    from B s have C: "(if x \<noteq> - 1 then Some (x, y)
          else if errno y = EINTR then accept_loop y sockfd
               else if errno y \<noteq> ENOSYS then Some (x, y)
                    else accept_skip (y\<lparr>no_accept4 := True\<rparr>) sockfd) = Some (r, w')"
      by (simp del: accept_loop.simps accept_skip.simps)
    show ?thesis
    proof (cases "x \<noteq> - 1")
      case True
      with C have "r = x" "w' = y" by (simp_all del: accept_loop.simps accept_skip.simps)
      with True c1 show ?thesis by (intro exI [of _ "[o1]"]) simp
    next
      case x: False
      show ?thesis
      proof (cases "errno y = EINTR")
        case True
        with C x have "accept_loop y sockfd = Some (r, w')" by (simp del: accept_loop.simps accept_skip.simps)
        from 1(2) [OF False s refl x True this]
        obtain c where "future y = c @ future w'"
          "r = - 1 \<and> errno w' = EINTR \<longrightarrow> (\<exists>v. Ret v \<in> set c)" by blast
        with c1 show ?thesis by (intro exI [of _ "o1 # c"]) auto
      next
        case e: False
        show ?thesis
        proof (cases "errno y \<noteq> ENOSYS")
          case True
          with C x e have "r = x" "w' = y"
            by (simp_all del: accept_loop.simps accept_skip.simps)
          with e c1 show ?thesis by (intro exI [of _ "[o1]"]) simp
        next
          case n: False
          with C x e have "accept_skip (y\<lparr>no_accept4 := True\<rparr>) sockfd = Some (r, w')"
            by (simp del: accept_loop.simps accept_skip.simps)
          from 1(3) [OF False s refl x e n this]
          obtain c where "future y = c @ future w'"
            "r = - 1 \<and> errno w' = EINTR \<longrightarrow> (\<exists>v. Ret v \<in> set c)" by auto
          with c1 show ?thesis by (intro exI [of _ "o1 # c"]) auto
        qed
      qed
    qed
  qed
next
  case (2 w sockfd)
  from 2(2) have B: "(case syscall w of None \<Rightarrow> None
     | Some (peerfd, w1) \<Rightarrow>
         if peerfd = - 1
         then if errno w1 = EINTR then accept_loop w1 sockfd else Some (peerfd, w1)
         else accept_flags w1 peerfd) = Some (r, w')"
    by (subst (asm) accept_skip.simps)
  then obtain x y where s: "syscall w = Some (x, y)"
    by (cases "syscall w") (auto simp del: accept_loop.simps accept_skip.simps)
  from syscall_consumes [OF s] obtain o1 where c1: "future w = o1 # future y"
    and f: "x \<noteq> - 1 \<longrightarrow> (\<exists>v. o1 = Ret v)" by auto
  from B s have C: "(if x = - 1
         then if errno y = EINTR then accept_loop y sockfd else Some (x, y)
         else accept_flags y x) = Some (r, w')"
    by (simp del: accept_loop.simps accept_skip.simps)
  show ?case
  proof (cases "x = - 1")
    case x: True
    show ?thesis
    proof (cases "errno y = EINTR")
      case True
      with C x have "accept_loop y sockfd = Some (r, w')" by (simp del: accept_loop.simps accept_skip.simps)
      from 2(1) [OF s refl x True this]
      obtain c where "future y = c @ future w'"
        "r = - 1 \<and> errno w' = EINTR \<longrightarrow> (\<exists>v. Ret v \<in> set c)" by blast
      with c1 show ?thesis by (intro exI [of _ "o1 # c"]) auto
    next
      case e: False
      with C x have "r = x" "w' = y"
        by (simp_all del: accept_loop.simps accept_skip.simps)
      with e c1 show ?thesis by (intro exI [of _ "[o1]"]) simp
    qed
  next
    case False
    with C have "accept_flags y x = Some (r, w')" by (simp del: accept_loop.simps accept_skip.simps)
    from accept_flags_suffix [OF this] obtain c where "future y = c @ future w'" by blast
    with c1 f False show ?thesis by (intro exI [of _ "o1 # c"]) auto
  qed
qed

subsection \<open>What the caller sees of an interrupted call\<close>

text \<open>
  C9, as the code has it. \<^verbatim>\<open>uv__nonblock\<close>, \<^verbatim>\<open>uv__cloexec\<close> and \<^verbatim>\<open>uv__accept\<close> retry a
  system call that fails with \<^verbatim>\<open>EINTR\<close>: any number of interruptions in front of the
  outcomes changes neither the value returned nor what is left for later calls, the two
  \<^verbatim>\<open>ioctl\<close> helpers never return an \<^verbatim>\<open>EINTR\<close> failure, and they return as soon as
  one outcome is not an interruption. The same holds of the flag steps inside
  \<^verbatim>\<open>uv__accept\<close> and of the close-on-exec step inside \<^verbatim>\<open>uv__dup\<close>: with \<^verbatim>\<open>accept\<close>
  interrupted \<open>i\<close> times, \<^verbatim>\<open>uv__cloexec\<close> \<open>k\<close> times and \<^verbatim>\<open>uv__nonblock\<close> \<open>j\<close> times,
  \<^verbatim>\<open>uv__accept\<close> returns the descriptor and leaves the outcomes that follow. The other
  calls are made once. \<^verbatim>\<open>uv__close\<close> reports an interrupted \<^verbatim>\<open>close\<close> as
  \<^verbatim>\<open>-EINPROGRESS\<close>, and \<^verbatim>\<open>uv__dup\<close> an interrupted \<^verbatim>\<open>dup\<close> as \<open>-1\<close> with \<^verbatim>\<open>errno\<close>
  left at \<^verbatim>\<open>EINTR\<close>; the next outcome is not consumed. The \<^verbatim>\<open>close\<close> that rolls back a
  descriptor whose flag step failed is not repeated either: \<^verbatim>\<open>uv__dup\<close> restores
  \<^verbatim>\<open>errno\<close> around it, and \<^verbatim>\<open>uv__accept\<close> returns \<open>-1\<close> with \<^verbatim>\<open>errno\<close> at \<^verbatim>\<open>EINTR\<close>
  when that \<^verbatim>\<open>close\<close> is interrupted. A failure of \<^verbatim>\<open>accept4\<close> or \<^verbatim>\<open>accept\<close> itself is
  never reported with \<^verbatim>\<open>EINTR\<close>: \<^verbatim>\<open>uv__accept\<close> fails with \<^verbatim>\<open>EINTR\<close> in \<^verbatim>\<open>errno\<close> only
  after a descriptor was accepted.
\<close>

theorem eintr_retried_by_accept_and_ioctl:
  "map_option observed (uv__nonblock (w\<lparr>future := replicate k (Fail EINTR) @ s\<rparr>) desc on)
     = map_option observed (uv__nonblock (w\<lparr>future := s\<rparr>) desc on)
   \<and> map_option observed (uv__cloexec (w\<lparr>future := replicate k (Fail EINTR) @ s\<rparr>) desc on)
     = map_option observed (uv__cloexec (w\<lparr>future := s\<rparr>) desc on)
   \<and> map_option (map_sum id observed) (uv__accept (w\<lparr>future := replicate k (Fail EINTR) @ s\<rparr>) desc)
     = map_option (map_sum id observed) (uv__accept (w\<lparr>future := s\<rparr>) desc)
   \<and> (\<forall>r w'. uv__nonblock w desc on = Some (r, w') \<longrightarrow> \<not> (r = - 1 \<and> errno w' = EINTR))
   \<and> (\<forall>r w'. uv__cloexec w desc on = Some (r, w') \<longrightarrow> \<not> (r = - 1 \<and> errno w' = EINTR))
   \<and> ((\<exists>x\<in>set (future w). x \<noteq> Fail EINTR) \<longrightarrow>
        uv__nonblock w desc on \<noteq> None \<and> uv__cloexec w desc on \<noteq> None)
   \<and> (STDERR_FILENO < desc \<longrightarrow>
        uv__close (w\<lparr>future := Fail EINTR # s\<rparr>) desc = Some (Inr (- EINPROGRESS, w\<lparr>future := s\<rparr>)))
   \<and> uv__dup (w\<lparr>future := Fail EINTR # s\<rparr>) desc = Some (- 1, w\<lparr>errno := EINTR, future := s\<rparr>)
   \<and> map_option observed (accept_flags (w\<lparr>future := replicate k (Fail EINTR) @ s\<rparr>) desc)
     = map_option observed (accept_flags (w\<lparr>future := s\<rparr>) desc)
   \<and> map_option observed (accept_flags (w\<lparr>future := Ret 0 # replicate k (Fail EINTR) @ s\<rparr>) desc)
     = map_option observed (accept_flags (w\<lparr>future := Ret 0 # s\<rparr>) desc)
   \<and> (no_accept4 w \<and> 0 \<le> desc \<longrightarrow>
        map_option (map_sum id observed)
          (uv__accept (w\<lparr>future := replicate i (Fail EINTR) @ Ret v # replicate k (Fail EINTR)
                          @ Ret 0 # replicate j (Fail EINTR) @ Ret 0 # s\<rparr>) desc)
        = Some (Inr (int v, True, s)))
   \<and> map_option observed (uv__dup (w\<lparr>future := Ret v # replicate k (Fail EINTR) @ s\<rparr>) desc)
     = map_option observed (uv__dup (w\<lparr>future := Ret v # s\<rparr>) desc)
   \<and> (\<forall>r w'. uv__accept w desc = Some (Inr (r, w')) \<and> r = - 1 \<and> errno w' = EINTR \<longrightarrow>
         (\<exists>c u. future w = c @ future w' \<and> Ret u \<in> set c))
   \<and> (no_accept4 w \<and> 0 \<le> desc \<and> e \<noteq> EINTR \<longrightarrow>
        uv__accept (w\<lparr>future := Ret v # Fail e # Fail EINTR # s\<rparr>) desc
          = Some (Inr (- 1, w\<lparr>errno := EINTR, future := s\<rparr>)))
   \<and> (e \<noteq> EINTR \<longrightarrow>
        uv__dup (w\<lparr>future := Ret v # Fail e # Fail EINTR # s\<rparr>) desc
          = Some (- 1, w\<lparr>errno := e, future := s\<rparr>))"
proof (intro conjI allI impI)
  show "map_option observed (accept_flags (w\<lparr>future := replicate k (Fail EINTR) @ s\<rparr>) desc)
     = map_option observed (accept_flags (w\<lparr>future := s\<rparr>) desc)"
    by (rule accept_flags_prefix)
  show "map_option observed (accept_flags (w\<lparr>future := Ret 0 # replicate k (Fail EINTR) @ s\<rparr>) desc)
     = map_option observed (accept_flags (w\<lparr>future := Ret 0 # s\<rparr>) desc)"
    by (rule accept_flags_second_step)
  show "map_option observed (uv__dup (w\<lparr>future := Ret v # replicate k (Fail EINTR) @ s\<rparr>) desc)
     = map_option observed (uv__dup (w\<lparr>future := Ret v # s\<rparr>) desc)"
    by (rule dup_second_step)
next
  assume a: "no_accept4 w \<and> 0 \<le> desc"
  then have n: "no_accept4 w" and d: "0 \<le> desc" by simp_all
  show "map_option (map_sum id observed)
          (uv__accept (w\<lparr>future := replicate i (Fail EINTR) @ Ret v # replicate k (Fail EINTR)
                          @ Ret 0 # replicate j (Fail EINTR) @ Ret 0 # s\<rparr>) desc)
        = Some (Inr (int v, True, s))"
    by (rule accept_all_steps_retried [OF n d])
next
  fix r w' assume a: "uv__accept w desc = Some (Inr (r, w')) \<and> r = - 1 \<and> errno w' = EINTR"
  then have "accept_loop w desc = Some (r, w')"
    by (auto simp: uv__accept_def split: if_splits simp del: accept_loop.simps)
  from accept_eintr_origin(1) [OF this] a
  show "\<exists>c u. future w = c @ future w' \<and> Ret u \<in> set c" by blast
next
  assume a: "no_accept4 w \<and> 0 \<le> desc \<and> e \<noteq> EINTR"
  then have n: "no_accept4 w" and d: "0 \<le> desc" and e: "e \<noteq> EINTR" by simp_all
  show "uv__accept (w\<lparr>future := Ret v # Fail e # Fail EINTR # s\<rparr>) desc
          = Some (Inr (- 1, w\<lparr>errno := EINTR, future := s\<rparr>))"
    by (rule accept_rollback_interrupted [OF n d e])
next
  assume e: "e \<noteq> EINTR"
  then show "uv__dup (w\<lparr>future := Ret v # Fail e # Fail EINTR # s\<rparr>) desc
          = Some (- 1, w\<lparr>errno := e, future := s\<rparr>)"
    by (rule dup_rollback_interrupted)
next
  show "map_option (map_sum id observed) (uv__accept (w\<lparr>future := replicate k (Fail EINTR) @ s\<rparr>) desc)
     = map_option (map_sum id observed) (uv__accept (w\<lparr>future := s\<rparr>) desc)"
  proof -
    have m: "map_option (map_sum id observed) (map_option Inr a) = map_option Inr (map_option observed a)"
      for a :: "(int \<times> world) option" and dummy :: error
      by (cases a) simp_all
    show ?thesis
    proof (cases "0 \<le> desc")
      case True
      then show ?thesis
        unfolding uv__accept_def
        by (simp only: m interrupted_prefix(3) [of k s w desc] not_not if_False not_True_eq_False)
    next
      case False
      then show ?thesis
        unfolding uv__accept_def by (simp only: if_True not_False_eq_True)
    qed
  qed
  show "STDERR_FILENO < desc \<Longrightarrow>
        uv__close (w\<lparr>future := Fail EINTR # s\<rparr>) desc = Some (Inr (- EINPROGRESS, w\<lparr>future := s\<rparr>))"
    by (cases w) (simp add: uv__close_def STDERR_FILENO_def Let_def syscall_def)
  show "uv__dup (w\<lparr>future := Fail EINTR # s\<rparr>) desc = Some (- 1, w\<lparr>errno := EINTR, future := s\<rparr>)"
    by (simp add: uv__dup_def)
next
  show "map_option observed (uv__nonblock (w\<lparr>future := replicate k (Fail EINTR) @ s\<rparr>) desc on)
     = map_option observed (uv__nonblock (w\<lparr>future := s\<rparr>) desc on)"
    by (rule interrupted_prefix(1))
  show "map_option observed (uv__cloexec (w\<lparr>future := replicate k (Fail EINTR) @ s\<rparr>) desc on)
     = map_option observed (uv__cloexec (w\<lparr>future := s\<rparr>) desc on)"
    by (rule interrupted_prefix(2))
next
  fix r w' assume "uv__nonblock w desc on = Some (r, w')"
  then show "\<not> (r = - 1 \<and> errno w' = EINTR)" by (rule never_eintr(1))
next
  fix r w' assume "uv__cloexec w desc on = Some (r, w')"
  then show "\<not> (r = - 1 \<and> errno w' = EINTR)" by (rule never_eintr(2))
next
  assume a: "\<exists>x\<in>set (future w). x \<noteq> Fail EINTR"
  from a show "uv__nonblock w desc on \<noteq> None" by (rule ioctl_returns(1))
  from a show "uv__cloexec w desc on \<noteq> None" by (rule ioctl_returns(2))
qed


theorem eintr_retried_by_accept_and_ioctl_witness:
  "uv__nonblock \<lparr>errno = 0, no_accept4 = False, future = [Fail EINTR, Fail EINTR, Ret 0]\<rparr> 5 1
     = Some (0, \<lparr>errno = EINTR, no_accept4 = False, future = []\<rparr>)
   \<and> map_option (map_sum id observed)
        (uv__accept \<lparr>errno = 0, no_accept4 = False, future = [Fail EINTR, Ret 9, Ret 0]\<rparr> 3)
     = Some (Inr (9, False, [Ret 0]))
   \<and> uv__close \<lparr>errno = 0, no_accept4 = False, future = [Fail EINTR, Ret 0]\<rparr> 5
     = Some (Inr (- EINPROGRESS, \<lparr>errno = 0, no_accept4 = False, future = [Ret 0]\<rparr>))
   \<and> map_option (map_sum id observed)
        (uv__accept \<lparr>errno = 0, no_accept4 = True,
            future = [Fail EINTR, Ret 9, Fail EINTR, Ret 0, Fail EINTR, Fail EINTR, Ret 0, Ret 7]\<rparr> 3)
     = Some (Inr (9, True, [Ret 7]))
   \<and> uv__accept \<lparr>errno = 0, no_accept4 = True, future = [Ret 9, Fail 9, Fail EINTR, Ret 0]\<rparr> 3
     = Some (Inr (- 1, \<lparr>errno = EINTR, no_accept4 = True, future = [Ret 0]\<rparr>))
   \<and> uv__dup \<lparr>errno = 0, no_accept4 = False, future = [Ret 9, Fail 9, Fail EINTR, Ret 0]\<rparr> 3
     = Some (- 1, \<lparr>errno = 9, no_accept4 = False, future = [Ret 0]\<rparr>)
   \<and> map_option observed
        (uv__dup \<lparr>errno = 0, no_accept4 = False, future = [Ret 9, Fail EINTR, Ret 0, Ret 7]\<rparr> 3)
     = Some (9, False, [Ret 7])"
proof -
  have old: "uv__nonblock \<lparr>errno = 0, no_accept4 = False, future = [Fail EINTR, Fail EINTR, Ret 0]\<rparr> 5 1
     = Some (0, \<lparr>errno = EINTR, no_accept4 = False, future = []\<rparr>)
   \<and> map_option (map_sum id observed)
        (uv__accept \<lparr>errno = 0, no_accept4 = False, future = [Fail EINTR, Ret 9, Ret 0]\<rparr> 3)
     = Some (Inr (9, False, [Ret 0]))
   \<and> uv__close \<lparr>errno = 0, no_accept4 = False, future = [Fail EINTR, Ret 0]\<rparr> 5
     = Some (Inr (- EINPROGRESS, \<lparr>errno = 0, no_accept4 = False, future = [Ret 0]\<rparr>))"
    using eintr_retried_by_accept_and_ioctl
      [where w="\<lparr>errno = 0, no_accept4 = False, future = []\<rparr>" and k=1 and s="[Ret 9, Ret 0]"
         and desc=3 and on=1]
    eintr_retried_by_accept_and_ioctl
      [where w="\<lparr>errno = 0, no_accept4 = False, future = []\<rparr>" and k=2 and s="[Ret 0]"
         and desc=5 and on=1]
    by (simp add: syscall_def uv__accept_def observed_def EINTR_def STDERR_FILENO_def)

  have ne: "(9 :: int) \<noteq> EINTR" by (simp add: EINTR_def)
  note T1 = eintr_retried_by_accept_and_ioctl
    [where w="\<lparr>errno = 0, no_accept4 = True, future = []\<rparr>" and i=1 and k=1 and j=2 and v=9
       and s="[Ret 7]" and desc=3 and e=9 and on=1]
  note T2 = eintr_retried_by_accept_and_ioctl
    [where w="\<lparr>errno = 0, no_accept4 = True, future = []\<rparr>" and i=1 and k=1 and j=2 and v=9
       and s="[Ret 0]" and desc=3 and e=9 and on=1]
  note T3 = eintr_retried_by_accept_and_ioctl
    [where w="\<lparr>errno = 0, no_accept4 = False, future = []\<rparr>" and i=1 and k=1 and j=2 and v=9
       and s="[Ret 0]" and desc=3 and e=9 and on=1]
  note T4 = eintr_retried_by_accept_and_ioctl
    [where w="\<lparr>errno = 0, no_accept4 = False, future = []\<rparr>" and i=1 and k=1 and j=2 and v=9
       and s="[Ret 0, Ret 7]" and desc=3 and e=9 and on=1]
  from T1 have a: "map_option (map_sum id observed)
        (uv__accept \<lparr>errno = 0, no_accept4 = True,
            future = [Fail EINTR, Ret 9, Fail EINTR, Ret 0, Fail EINTR, Fail EINTR, Ret 0, Ret 7]\<rparr> 3)
     = Some (Inr (9, True, [Ret 7]))"
    by (simp add: numeral_2_eq_2)
  from T2 ne have b: "uv__accept \<lparr>errno = 0, no_accept4 = True, future = [Ret 9, Fail 9, Fail EINTR, Ret 0]\<rparr> 3
     = Some (Inr (- 1, \<lparr>errno = EINTR, no_accept4 = True, future = [Ret 0]\<rparr>))"
    by simp
  from T3 ne have c: "uv__dup \<lparr>errno = 0, no_accept4 = False, future = [Ret 9, Fail 9, Fail EINTR, Ret 0]\<rparr> 3
     = Some (- 1, \<lparr>errno = 9, no_accept4 = False, future = [Ret 0]\<rparr>)"
    by simp
  from T4 have "map_option observed
        (uv__dup \<lparr>errno = 0, no_accept4 = False, future = [Ret 9, Fail EINTR, Ret 0, Ret 7]\<rparr> 3)
     = map_option observed
        (uv__dup \<lparr>errno = 0, no_accept4 = False, future = [Ret 9, Ret 0, Ret 7]\<rparr> 3)"
    by simp
  also have "\<dots> = Some (9, False, [Ret 7])"
    by (simp add: uv__dup_def syscall_def observed_def)
  finally have d: "map_option observed
        (uv__dup \<lparr>errno = 0, no_accept4 = False, future = [Ret 9, Fail EINTR, Ret 0, Ret 7]\<rparr> 3)
     = Some (9, False, [Ret 7])" .
  from old a b c d show ?thesis by simp
qed

text \<open>
  An interrupted \<^verbatim>\<open>close\<close> followed by one that would succeed: \<^verbatim>\<open>uv__close\<close> returns
  \<open>-115\<close> (\<^verbatim>\<open>-EINPROGRESS\<close>) and makes no second call.
\<close>

theorem uv__close_reports_eintr_counterexample:
  "uv__close \<lparr>errno = 0, no_accept4 = False, future = [Fail EINTR, Ret 0]\<rparr> 5
     = Some (Inr (- 115, \<lparr>errno = 0, no_accept4 = False, future = [Ret 0]\<rparr>))"
  by (simp add: uv__close_def syscall_def EINTR_def EINPROGRESS_def STDERR_FILENO_def Let_def)

subsection \<open>The identity of the loop and the ticks of a run\<close>

lemma loopId_upd_handle [simp]: "loopId (upd_handle h f l) = loopId l"
  by (simp add: upd_handle_def)

lemma loopId_feed [simp]: "loopId (uv__io_feed l w) = loopId l"
  by (simp add: uv__io_feed_def)

lemma uv_close_loopId:
  "keeps_loop_id e \<Longrightarrow> uv_close e h c l = Inr l' \<Longrightarrow> loopId l' = loopId l"
  by (auto simp: uv_close_def keeps_loop_id_def uv__make_close_pending_def Let_def
        split: if_splits uv_handle_type.splits)

lemma exec_loopId:
  "keeps_loop_id e \<Longrightarrow> exec e as l = Inr l' \<Longrightarrow> loopId l' = loopId l"
proof (induction e as l rule: exec.induct)
  case (1 e l)
  then show ?case by simp
next
  case (2 e h c as l)
  then show ?case by (auto split: sum.splits dest: uv_close_loopId)
next
  case (3 e w as l)
  then show ?case by simp
qed

lemma finish_switch_loopId:
  "keeps_loop_id e \<Longrightarrow> finish_switch e h l = Inr l' \<Longrightarrow> loopId l' = loopId l"
  by (auto simp: finish_switch_def keeps_loop_id_def split: uv_handle_type.splits)

lemma keeps_loop_idD:
  assumes "keeps_loop_id e"
  shows "loopId (close_hook e t h l) = loopId l"
    and "loopId (stream_destroy e h l) = loopId l"
    and "loopId (udp_finish_close e h l) = loopId l"
    and "loopId (handle_unref e h l) = loopId l"
    and "loopId (handle_queue_remove e h l) = loopId l"
    and "loopId (update_time e l) = loopId l"
    and "loopId (run_timers e l) = loopId l"
    and "loopId (run_idle e l) = loopId l"
    and "loopId (run_prepare e l) = loopId l"
    and "loopId (run_check e l) = loopId l"
    and "loopId (io_poll_jx e l tm i) = loopId l"
    and "loopId (trigger_sync e f i l) = loopId l"
  using assms by (simp_all add: keeps_loop_id_def)

lemma finish_close_loopId:
  assumes k: "keeps_loop_id e" and f: "uv__finish_close e h l = Inr l'"
  shows "loopId l' = loopId l"
proof -
  let ?l0 = "upd_handle h (\<lambda>x. x\<lparr>flags := flags x OR UV_CLOSED\<rparr>) l"
  from f obtain l2 where l2: "finish_switch e h ?l0 = Inr l2"
    by (auto simp: uv__finish_close_def split: if_splits sum.splits)
  let ?l3 = "handle_queue_remove e h (handle_unref e h l2)"
  have 3: "loopId ?l3 = loopId l"
    using finish_switch_loopId [OF k l2] by (simp add: keeps_loop_idD [OF k])
  show ?thesis
  proof (cases "close_cb (handles ?l3 h)")
    case None
    with f l2 have "l' = ?l3"
      by (auto simp: uv__finish_close_def Let_def split: if_splits)
    with 3 show ?thesis by simp
  next
    case (Some c)
    with f l2 have "exec e (close_cbs e c h) ?l3 = Inr l'"
      by (auto simp: uv__finish_close_def Let_def split: if_splits)
    from exec_loopId [OF k this] 3 show ?thesis by simp
  qed
qed

lemma closing_loop_loopId:
  assumes "closing_loop e p d l = Some y"
  shows "keeps_loop_id e \<longrightarrow> (\<forall>l' fin. y = Inr (l', fin) \<longrightarrow> loopId l' = loopId l)"
  using assms
proof (induction rule: closing_loop.raw_induct [rotated, consumes 1, case_names step])
  case (step f e p d l y)
  show ?case
  proof (intro impI allI)
    fix l' fin assume k: "keeps_loop_id e" and y: "y = Inr (l', fin)"
    show "loopId l' = loopId l"
    proof (cases p)
      case None
      with step(2) y show ?thesis by simp
    next
      case (Some h)
      with step(2) y obtain l1 where l1: "uv__finish_close e h l = Inr l1"
        and f: "f e (next_closing (handles l h)) (d @ [h]) l1 = Some y"
        by (auto simp: Let_def split: sum.splits)
      from step(1) [OF f] k y have "loopId l' = loopId l1" by simp
      with finish_close_loopId [OF k l1] show ?thesis by simp
    qed
  qed
qed

lemma run_pending_loopId:
  assumes "uv__run_pending e calls l = Some y"
  shows "keeps_loop_id e \<longrightarrow> (\<forall>l' cs. y = Inr (l', cs) \<longrightarrow> loopId l' = loopId l)"
  using assms
proof (induction rule: uv__run_pending.raw_induct [rotated, consumes 1, case_names step])
  case (step f e calls l y)
  show ?case
  proof (intro impI allI)
    fix l' cs assume k: "keeps_loop_id e" and y: "y = Inr (l', cs)"
    show "loopId l' = loopId l"
    proof (cases "pending_queue l")
      case Nil
      with step(2) y show ?thesis by simp
    next
      case (Cons w q)
      with step(2) y obtain l2 where
        l2: "exec e (io_cbs e (cb (ios l w)) w UV__POLLOUT) (l\<lparr>pending_queue := q\<rparr>) = Inr l2"
        and f: "f e (calls @ [(w, UV__POLLOUT)]) l2 = Some y"
        by (auto simp: Let_def split: sum.splits)
      from step(1) [OF f] k y have "loopId l' = loopId l2" by simp
      with exec_loopId [OF k l2] show ?thesis by simp
    qed
  qed
qed

lemma run_tick_loopId:
  assumes k: "keeps_loop_id e" and t: "run_tick e mode l = Some (Inr (l', p))"
  shows "loopId l' = loopId l"
proof -
  let ?l1 = "run_prepare e (run_idle e (run_timers e (update_time e l)))"
  have 1: "loopId ?l1 = loopId l" by (simp add: keeps_loop_idD [OF k])
  from t obtain l2 calls where rp: "uv__run_pending e [] ?l1 = Some (Inr (l2, calls))"
    by (auto simp: run_tick_def split: option.splits sum.splits)
  from run_pending_loopId [OF rp] k have 2: "loopId l2 = loopId ?l1" by simp
  let ?t = "if mode_bits mode AND mode_bits UV_RUN_NOWAIT = 0 then uv_backend_timeout e l2 else 0"
  let ?l3 = "if mode \<noteq> UV_RUN_PAUSE then io_poll_jx e l2 ?t (loopId l2) else l2"
  have 3: "loopId (run_check e ?l3) = loopId l2" by (simp add: keeps_loop_idD [OF k])
  from t rp obtain fin where rc: "uv__run_closing_handles e (run_check e ?l3) = Some (Inr (l', fin))"
    by (auto simp: run_tick_def Let_def split: option.splits sum.splits)
  from closing_loop_loopId [OF rc [unfolded uv__run_closing_handles_def]] k
  have "loopId l' = loopId (run_check e ?l3)" by simp
  with 1 2 3 show ?thesis by simp
qed

lemma run_loop_loopId:
  assumes "run_loop e mode r polls l = Some y"
  shows "keeps_loop_id e \<longrightarrow> (\<forall>r' l' ps. y = Inr (r', l', ps) \<longrightarrow> loopId l' = loopId l)"
  using assms
proof (induction rule: run_loop.raw_induct [rotated, consumes 1, case_names step])
  case (step f e mode r polls l y)
  show ?case
  proof (intro impI allI)
    fix r' l' ps assume k: "keeps_loop_id e" and y: "y = Inr (r', l', ps)"
    show "loopId l' = loopId l"
    proof (cases "r \<and> stop_flag l = 0")
      case False
      with step(2) y show ?thesis by auto
    next
      case True
      with step(2) y obtain l1 p where t: "run_tick e mode l = Some (Inr (l1, p))"
        by (auto split: option.splits sum.splits)
      from run_tick_loopId [OF k t] have 1: "loopId l1 = loopId l" .
      show ?thesis
      proof (cases "mode_bits mode
                     AND (mode_bits UV_RUN_ONCE OR mode_bits UV_RUN_NOWAIT OR mode_bits UV_RUN_PAUSE) \<noteq> 0")
        case True
        with step(2) y t \<open>r \<and> stop_flag l = 0\<close> have "l' = l1" by simp
        with 1 show ?thesis by simp
      next
        case False
        with step(2) y t \<open>r \<and> stop_flag l = 0\<close>
        have "f e mode (uv__loop_alive l1) (polls @ [p]) l1 = Some y" by simp
        from step(1) [OF this] k y 1 show ?thesis by simp
      qed
    qed
  qed
qed


lemma force_loop_loopId:
  assumes "force_loop nested e n st polls l = Some y"
  shows "(\<forall>l y'. nested l = Some y' \<longrightarrow> (\<forall>r l' ps. y' = Inr (r, l', ps) \<longrightarrow> loopId l' = loopId l))
     \<longrightarrow> (\<forall>l' ps. y = Inr (l', ps) \<longrightarrow> loopId l' = loopId l)"
  using assms
proof (induction rule: force_loop.raw_induct [rotated, consumes 1, case_names step])
  case (step f nested e n st polls l y)
  show ?case
  proof (intro impI allI)
    fix l' ps
    assume nk: "\<forall>l y'. nested l = Some y' \<longrightarrow> (\<forall>r l' ps. y' = Inr (r, l', ps) \<longrightarrow> loopId l' = loopId l)"
      and y: "y = Inr (l', ps)"
    from step(2) y obtain rv l1 ps1 where n1: "nested l = Some (Inr (rv, l1, ps1))"
      by (auto split: option.splits sum.splits)
    with nk have 1: "loopId l1 = loopId l" by blast
    show "loopId l' = loopId l"
    proof (cases "50 * 1000 * 1000 < hrtime e n - st \<or> \<not> rv")
      case True
      with step(2) y n1 have "l' = l1" by (auto split: if_splits)
      with 1 show ?thesis by simp
    next
      case False
      with step(2) y n1 have "f nested e (Suc n) st (polls @ ps1) l1 = Some y" by simp
      from step(1) [OF this] nk y 1 show ?thesis by simp
    qed
  qed
qed

lemma set_loop_id_already [simp]: "set_loop_id l THREAD_ID_ALREADY_DEFINED = l"
  by (simp add: set_loop_id_def)

lemma run_jx_with_loopId:
  assumes k: "keeps_loop_id e"
    and nk: "\<forall>l y'. nested l = Some y' \<longrightarrow> (\<forall>r l' ps. y' = Inr (r, l', ps) \<longrightarrow> loopId l' = loopId l)"
    and r: "run_jx_with nested e l mode ts tid = Some (Inr (r, l', ps))"
  shows "loopId l' = loopId (set_loop_id l tid)"
proof -
  let ?l0 = "set_loop_id l tid"
  from r obtain r1 l1 ps1 where rl: "run_loop e mode (uv__loop_alive ?l0) [] ?l0 = Some (Inr (r1, l1, ps1))"
    by (auto simp: run_jx_with_def Let_def split: option.splits sum.splits)
  from run_loop_loopId [OF rl] k have 1: "loopId l1 = loopId ?l0" by simp
  let ?l2 = "case ts of None \<Rightarrow> l1
             | Some f \<Rightarrow> if 0 \<le> loopId l1 \<and> mode = UV_RUN_DEFAULT then trigger_sync e f (loopId l1) l1 else l1"
  have 2: "loopId ?l2 = loopId l1"
    by (simp add: keeps_loop_idD [OF k] split: option.splits)
  let ?l3 = "?l2\<lparr>stop_flag := 0\<rparr>"
  have 3: "loopId ?l3 = loopId l1" using 2 by simp
  show ?thesis
  proof (cases "stop_flag ?l2 \<noteq> 0 \<and> mode = UV_RUN_DEFAULT \<and> wq ?l3 \<noteq> [] \<and> 0 < loopId ?l3")
    case True
    with r rl obtain l4 ps4 where fl: "force_loop nested e 1 (hrtime e 0) ps1 ?l3 = Some (Inr (l4, ps4))"
      and "l' = l4"
      by (auto simp: run_jx_with_def Let_def split: option.splits sum.splits if_splits)
    from force_loop_loopId [OF fl] nk have "loopId l4 = loopId ?l3" by blast
    with \<open>l' = l4\<close> 3 1 show ?thesis by simp
  next
    case False
    with r rl have "l' = ?l2 \<or> l' = ?l3"
      by (auto simp: run_jx_with_def Let_def split: option.splits sum.splits if_splits)
    with 2 3 1 show ?thesis by auto
  qed
qed

lemma run_jx_with_single:
  "mode \<noteq> UV_RUN_DEFAULT \<Longrightarrow> run_jx_with N e l mode ts tid = run_jx_with N' e l mode ts tid"
  by (simp add: run_jx_with_def Let_def split: option.splits sum.splits prod.splits)

text \<open>The equation that the C function satisfies: the nested call is the function itself.\<close>

lemma uv_run_jx_rec:
  "uv_run_jx e l mode ts tid
     = run_jx_with (\<lambda>l'. uv_run_jx e l' UV_RUN_NOWAIT ts THREAD_ID_ALREADY_DEFINED) e l mode ts tid"
proof -
  have "uv_run_jx e l' UV_RUN_NOWAIT ts THREAD_ID_ALREADY_DEFINED
      = run_jx_with (\<lambda>_. None) e l' UV_RUN_NOWAIT ts THREAD_ID_ALREADY_DEFINED" for l'
    unfolding uv_run_jx_def by (rule run_jx_with_single) simp
  then show ?thesis by (simp add: uv_run_jx_def)
qed

lemma uv_run_jx_loopId:
  assumes k: "keeps_loop_id e" and r: "uv_run_jx e l mode ts tid = Some (Inr (r, l', ps))"
  shows "loopId l' = loopId (set_loop_id l tid)"
proof -
  let ?N = "\<lambda>l'. run_jx_with (\<lambda>_. None) e l' UV_RUN_NOWAIT ts THREAD_ID_ALREADY_DEFINED"
  have nk: "\<forall>l y'. ?N l = Some y' \<longrightarrow> (\<forall>r l' ps. y' = Inr (r, l', ps) \<longrightarrow> loopId l' = loopId l)"
  proof (intro allI impI)
    fix l y' r l' ps assume a: "?N l = Some y'" "y' = Inr (r, l', ps)"
    have "loopId l' = loopId (set_loop_id l THREAD_ID_ALREADY_DEFINED)"
      by (rule run_jx_with_loopId [OF k _ a(1) [unfolded a(2)]]) simp
    then show "loopId l' = loopId l" by simp
  qed
  from r show ?thesis
    unfolding uv_run_jx_def by (rule run_jx_with_loopId [OF k nk])
qed

text \<open>
  C10. A call of \<^verbatim>\<open>uv_run_jx\<close> whose thread id is not the sentinel \<open>-2\<close> stores the
  identity of the loop before the first tick: the thread id itself, or 63 for the
  sentinel \<open>-1\<close>; the run is the run that starts from the loop with the identity stored.
  While the collaborators leave \<^verbatim>\<open>loopId\<close> alone, the loop still has that identity when
  the run returns; so a loop driven by \<^verbatim>\<open>uv_run\<close>, which passes \<open>-1\<close>, has identity 63
  afterwards, which is greater than 0.
\<close>

theorem uv_run_stores_loop_id:
  "(tid \<noteq> THREAD_ID_ALREADY_DEFINED \<longrightarrow>
      loopId (set_loop_id l tid) = (if tid = THREAD_ID_NOT_DEFINED then 63 else tid))
   \<and> uv_run_jx e l mode ts tid
       = uv_run_jx e (set_loop_id l tid) mode ts THREAD_ID_ALREADY_DEFINED
   \<and> (keeps_loop_id e \<longrightarrow>
        (\<forall>r l' ps. uv_run_jx e l mode ts tid = Some (Inr (r, l', ps))
           \<longrightarrow> loopId l' = loopId (set_loop_id l tid)))
   \<and> (keeps_loop_id e \<longrightarrow>
        (\<forall>r l' ps. uv_run e l mode = Some (Inr (r, l', ps)) \<longrightarrow> loopId l' = 63 \<and> 0 < loopId l'))"
proof (intro conjI impI allI)
  assume "tid \<noteq> THREAD_ID_ALREADY_DEFINED"
  then show "loopId (set_loop_id l tid) = (if tid = THREAD_ID_NOT_DEFINED then 63 else tid)"
    by (simp add: set_loop_id_def)
next
  show "uv_run_jx e l mode ts tid = uv_run_jx e (set_loop_id l tid) mode ts THREAD_ID_ALREADY_DEFINED"
    by (simp add: uv_run_jx_def run_jx_with_def)
next
  fix r l' ps assume "keeps_loop_id e" "uv_run_jx e l mode ts tid = Some (Inr (r, l', ps))"
  then show "loopId l' = loopId (set_loop_id l tid)" by (rule uv_run_jx_loopId)
next
  fix r l' ps assume a: "keeps_loop_id e" "uv_run e l mode = Some (Inr (r, l', ps))"
  from uv_run_jx_loopId [OF a(1) a(2) [unfolded uv_run_def]]
  have "loopId l' = 63"
    by (simp add: set_loop_id_def THREAD_ID_ALREADY_DEFINED_def THREAD_ID_NOT_DEFINED_def)
  then show "loopId l' = 63" "0 < loopId l'" by simp_all
qed


lemma keeps_loop_id_idle: "keeps_loop_id idle_env"
  by (simp add: keeps_loop_id_def idle_env_def)

theorem uv_run_stores_loop_id_witness:
  "loopId (set_loop_id zero_loop 7) = 7
   \<and> uv_run idle_env (zero_loop\<lparr>active_handles := 1\<rparr>) UV_RUN_ONCE
       = Some (Inr (True, zero_loop\<lparr>loopId := 63, active_handles := 1\<rparr>, [Some (- 1)]))
   \<and> loopId (zero_loop\<lparr>loopId := 63, active_handles := 1\<rparr>) = 63"
proof -
  let ?l = "zero_loop\<lparr>active_handles := 1\<rparr>"
  let ?l' = "zero_loop\<lparr>loopId := 63, active_handles := 1\<rparr>"
  have run: "uv_run idle_env ?l UV_RUN_ONCE = Some (Inr (True, ?l', [Some (- 1)]))"
    by (simp add: uv_run_def uv_run_jx_def run_jx_with_def set_loop_id_def run_loop.simps
      uv__loop_alive_def zero_loop_def uv__has_active_reqs_def THREAD_ID_ALREADY_DEFINED_def
      THREAD_ID_NOT_DEFINED_def run_tick_def idle_env_def uv__run_pending.simps
      uv__run_closing_handles_def closing_loop.simps mode_bits_def Let_def uv_backend_timeout_def
      uv__has_active_handles_def)
  have "7 \<noteq> THREAD_ID_ALREADY_DEFINED" by (simp add: THREAD_ID_ALREADY_DEFINED_def)
  with uv_run_stores_loop_id [THEN conjunct1, of 7 zero_loop]
  have id: "loopId (set_loop_id zero_loop 7) = 7"
    by (simp add: THREAD_ID_NOT_DEFINED_def)
  from uv_run_stores_loop_id [THEN conjunct2, THEN conjunct2, THEN conjunct2, rule_format,
      OF keeps_loop_id_idle run]
  have "loopId ?l' = 63" by (rule conjunct1)
  with id run show ?thesis by (intro conjI)
qed

lemma stop_flag_clear: "stop_flag l = 0 \<Longrightarrow> l\<lparr>stop_flag := 0\<rparr> = l"
  by (cases l) simp

lemma nowait_timeout:
  "run_tick e UV_RUN_NOWAIT l = Some (Inr (l', p)) \<Longrightarrow> p = Some 0"
  by (auto simp: run_tick_def mode_bits_def Let_def split: option.splits sum.splits)

lemma nowait_run_loop:
  "run_loop e UV_RUN_NOWAIT r [] l =
     (if r \<and> stop_flag l = 0
      then (case run_tick e UV_RUN_NOWAIT l of
              None \<Rightarrow> None
            | Some (Inl x) \<Rightarrow> Some (Inl x)
            | Some (Inr (l1, p)) \<Rightarrow> Some (Inr (uv__loop_alive l1, l1, [p])))
      else Some (Inr (r, l, [])))"
  by (subst run_loop.simps) (simp add: mode_bits_def split: option.splits sum.splits)

subsection \<open>One tick without blocking\<close>

lemma nowait_tick_unfold:
  "run_tick e UV_RUN_NOWAIT l =
     (case uv__run_pending e [] (before_pending e l) of
        None \<Rightarrow> None
      | Some (Inl x) \<Rightarrow> Some (Inl x)
      | Some (Inr (l2, calls)) \<Rightarrow>
          (case uv__run_closing_handles e (before_closing e l2) of
             None \<Rightarrow> None
           | Some (Inl x) \<Rightarrow> Some (Inl x)
           | Some (Inr (l5, fin)) \<Rightarrow> Some (Inr (l5, Some 0))))"
  by (simp add: run_tick_def before_pending_def before_closing_def mode_bits_def Let_def
        split: option.splits sum.splits)

lemma nowait_tick_none:
  "run_tick e UV_RUN_NOWAIT l = None \<longleftrightarrow>
     uv__run_pending e [] (before_pending e l) = None
     \<or> (\<exists>l2 calls. uv__run_pending e [] (before_pending e l) = Some (Inr (l2, calls))
           \<and> uv__run_closing_handles e (before_closing e l2) = None)"
  unfolding nowait_tick_unfold by (auto split: option.splits sum.splits)

lemma nowait_tick_returns:
  assumes ok: "hooks_ok e"
    and q: "\<forall>w\<in>set (pending_queue (before_pending e l)).
              io_cbs e (cb (ios (before_pending e l) w)) w UV__POLLOUT = []"
    and c: "closing_list (before_closing e ((before_pending e l)\<lparr>pending_queue := []\<rparr>)) xs"
  shows "run_tick e UV_RUN_NOWAIT l \<noteq> None"
proof -
  from drain_finalizes [OF ok c] obtain res where
    r: "uv__run_closing_handles e (before_closing e ((before_pending e l)\<lparr>pending_queue := []\<rparr>))
          = Some res" by blast
  show ?thesis
    unfolding nowait_tick_unfold run_pending_quiet [OF q] using r
    by (simp split: sum.splits)
qed

text \<open>
  C4, as the code has it. In mode \<^verbatim>\<open>UV_RUN_NOWAIT\<close> a tick hands the timeout 0 to the
  backend poll, and \<^verbatim>\<open>uv_run_jx\<close> executes at most one tick: exactly one when, with the
  identity stored, the loop is alive and its stop flag is clear, and none otherwise. With
  no tick the call returns at once; with a tick it returns or aborts exactly when the
  tick does, and the tick does not return exactly when its drain of the pending queue or,
  after it, its drain of the closing list does not. The call returns or aborts whenever,
  as the tick reaches them, the callbacks of the watchers on the pending queue make no
  call and the closing list is a list of distinct closing handles, the close hooks of the
  handle types leaving that list alone. Where the call returns, the stop flag is clear
  afterwards and the result is the liveness of the loop.
\<close>

theorem nowait_runs_at_most_one_tick:
  "(\<forall>l' p. run_tick e UV_RUN_NOWAIT l = Some (Inr (l', p)) \<longrightarrow> p = Some 0)
   \<and> uv_run_jx e l UV_RUN_NOWAIT ts tid =
       (if uv__loop_alive (set_loop_id l tid) \<and> stop_flag (set_loop_id l tid) = 0
        then (case run_tick e UV_RUN_NOWAIT (set_loop_id l tid) of
                None \<Rightarrow> None
              | Some (Inl x) \<Rightarrow> Some (Inl x)
              | Some (Inr (l1, p)) \<Rightarrow> Some (Inr (uv__loop_alive l1, l1\<lparr>stop_flag := 0\<rparr>, [p])))
        else Some (Inr (uv__loop_alive (set_loop_id l tid), (set_loop_id l tid)\<lparr>stop_flag := 0\<rparr>, [])))
   \<and> (\<forall>r l' ps. uv_run_jx e l UV_RUN_NOWAIT ts tid = Some (Inr (r, l', ps)) \<longrightarrow>
         ps = (if uv__loop_alive (set_loop_id l tid) \<and> stop_flag (set_loop_id l tid) = 0
               then [Some 0] else []))
   \<and> (\<not> (uv__loop_alive (set_loop_id l tid) \<and> stop_flag (set_loop_id l tid) = 0) \<longrightarrow>
         uv_run_jx e l UV_RUN_NOWAIT ts tid
           = Some (Inr (uv__loop_alive (set_loop_id l tid), (set_loop_id l tid)\<lparr>stop_flag := 0\<rparr>, [])))
   \<and> (uv__loop_alive (set_loop_id l tid) \<and> stop_flag (set_loop_id l tid) = 0 \<longrightarrow>
         (uv_run_jx e l UV_RUN_NOWAIT ts tid = None
            \<longleftrightarrow> run_tick e UV_RUN_NOWAIT (set_loop_id l tid) = None))
   \<and> (run_tick e UV_RUN_NOWAIT l = None \<longleftrightarrow>
         uv__run_pending e [] (before_pending e l) = None
         \<or> (\<exists>l2 calls. uv__run_pending e [] (before_pending e l) = Some (Inr (l2, calls))
               \<and> uv__run_closing_handles e (before_closing e l2) = None))
   \<and> (hooks_ok e
        \<and> (\<forall>w\<in>set (pending_queue (before_pending e (set_loop_id l tid))).
              io_cbs e (cb (ios (before_pending e (set_loop_id l tid)) w)) w UV__POLLOUT = [])
        \<and> (\<exists>xs. closing_list
                   (before_closing e ((before_pending e (set_loop_id l tid))\<lparr>pending_queue := []\<rparr>)) xs)
        \<longrightarrow> uv_run_jx e l UV_RUN_NOWAIT ts tid \<noteq> None)"
proof -
  let ?l0 = "set_loop_id l tid"
  have 1: "\<forall>l' p. run_tick e UV_RUN_NOWAIT l = Some (Inr (l', p)) \<longrightarrow> p = Some 0"
    using nowait_timeout by blast
  have ts: "(case ts of None \<Rightarrow> l1 | Some f \<Rightarrow>
               if 0 \<le> loopId l1 \<and> UV_RUN_NOWAIT = UV_RUN_DEFAULT then trigger_sync e f (loopId l1) l1 else l1) = l1"
    for l1 by (simp split: option.splits)
  have fin: "(if stop_flag l1 \<noteq> 0 then Some (Inr (r, l1\<lparr>stop_flag := 0\<rparr>, ps)) else Some (Inr (r, l1, ps)))
      = Some (Inr (r, l1\<lparr>stop_flag := 0\<rparr>, ps))" for l1 r and ps :: "int option list"
    by (simp add: stop_flag_clear)
  have 2: "uv_run_jx e l UV_RUN_NOWAIT ts tid =
       (if uv__loop_alive ?l0 \<and> stop_flag ?l0 = 0
        then (case run_tick e UV_RUN_NOWAIT ?l0 of
                None \<Rightarrow> None
              | Some (Inl x) \<Rightarrow> Some (Inl x)
              | Some (Inr (l1, p)) \<Rightarrow> Some (Inr (uv__loop_alive l1, l1\<lparr>stop_flag := 0\<rparr>, [p])))
        else Some (Inr (uv__loop_alive ?l0, ?l0\<lparr>stop_flag := 0\<rparr>, [])))"
    unfolding uv_run_jx_def run_jx_with_def
    by (simp add: nowait_run_loop ts Let_def stop_flag_clear split: option.splits sum.splits)
  have 3: "ps = (if uv__loop_alive ?l0 \<and> stop_flag ?l0 = 0 then [Some 0] else [])"
    if "uv_run_jx e l UV_RUN_NOWAIT ts tid = Some (Inr (r, l', ps))" for r l' ps
    using that nowait_timeout [of e ?l0] unfolding 2
    by (auto split: if_splits option.splits sum.splits)
  have 4: "uv_run_jx e l UV_RUN_NOWAIT ts tid = Some (Inr (uv__loop_alive ?l0, ?l0\<lparr>stop_flag := 0\<rparr>, []))"
    if "\<not> (uv__loop_alive ?l0 \<and> stop_flag ?l0 = 0)"
    unfolding 2 using that by (simp only: if_False)
  have 5: "uv_run_jx e l UV_RUN_NOWAIT ts tid = None \<longleftrightarrow> run_tick e UV_RUN_NOWAIT ?l0 = None"
    if "uv__loop_alive ?l0 \<and> stop_flag ?l0 = 0"
    unfolding 2 using that by (simp split: option.splits sum.splits)
  have 6: "run_tick e UV_RUN_NOWAIT l = None \<longleftrightarrow>
         uv__run_pending e [] (before_pending e l) = None
         \<or> (\<exists>l2 calls. uv__run_pending e [] (before_pending e l) = Some (Inr (l2, calls))
               \<and> uv__run_closing_handles e (before_closing e l2) = None)"
    by (rule nowait_tick_none)
  have 7: "uv_run_jx e l UV_RUN_NOWAIT ts tid \<noteq> None"
    if h: "hooks_ok e
        \<and> (\<forall>w\<in>set (pending_queue (before_pending e ?l0)).
              io_cbs e (cb (ios (before_pending e ?l0) w)) w UV__POLLOUT = [])
        \<and> (\<exists>xs. closing_list (before_closing e ((before_pending e ?l0)\<lparr>pending_queue := []\<rparr>)) xs)"
  proof (cases "uv__loop_alive ?l0 \<and> stop_flag ?l0 = 0")
    case False
    from 4 [OF this] show ?thesis by simp
  next
    case True
    from h obtain xs where ok: "hooks_ok e"
      and q: "\<forall>w\<in>set (pending_queue (before_pending e ?l0)).
              io_cbs e (cb (ios (before_pending e ?l0) w)) w UV__POLLOUT = []"
      and c: "closing_list (before_closing e ((before_pending e ?l0)\<lparr>pending_queue := []\<rparr>)) xs"
      by blast
    from nowait_tick_returns [OF ok q c] 5 [OF True] show ?thesis by simp
  qed
  show ?thesis
  proof (intro conjI)
    show "\<forall>l' p. run_tick e UV_RUN_NOWAIT l = Some (Inr (l', p)) \<longrightarrow> p = Some 0" by (rule 1)
    show "uv_run_jx e l UV_RUN_NOWAIT ts tid =
       (if uv__loop_alive ?l0 \<and> stop_flag ?l0 = 0
        then (case run_tick e UV_RUN_NOWAIT ?l0 of
                None \<Rightarrow> None
              | Some (Inl x) \<Rightarrow> Some (Inl x)
              | Some (Inr (l1, p)) \<Rightarrow> Some (Inr (uv__loop_alive l1, l1\<lparr>stop_flag := 0\<rparr>, [p])))
        else Some (Inr (uv__loop_alive ?l0, ?l0\<lparr>stop_flag := 0\<rparr>, [])))" by (rule 2)
    show "\<forall>r l' ps. uv_run_jx e l UV_RUN_NOWAIT ts tid = Some (Inr (r, l', ps)) \<longrightarrow>
         ps = (if uv__loop_alive ?l0 \<and> stop_flag ?l0 = 0 then [Some 0] else [])"
      using 3 by blast
    show "\<not> (uv__loop_alive ?l0 \<and> stop_flag ?l0 = 0) \<longrightarrow>
         uv_run_jx e l UV_RUN_NOWAIT ts tid
           = Some (Inr (uv__loop_alive ?l0, ?l0\<lparr>stop_flag := 0\<rparr>, []))"
      using 4 by blast
    show "uv__loop_alive ?l0 \<and> stop_flag ?l0 = 0 \<longrightarrow>
         (uv_run_jx e l UV_RUN_NOWAIT ts tid = None \<longleftrightarrow> run_tick e UV_RUN_NOWAIT ?l0 = None)"
      using 5 by blast
    show "run_tick e UV_RUN_NOWAIT l = None \<longleftrightarrow>
         uv__run_pending e [] (before_pending e l) = None
         \<or> (\<exists>l2 calls. uv__run_pending e [] (before_pending e l) = Some (Inr (l2, calls))
               \<and> uv__run_closing_handles e (before_closing e l2) = None)" by (rule 6)
    show "hooks_ok e
        \<and> (\<forall>w\<in>set (pending_queue (before_pending e ?l0)).
              io_cbs e (cb (ios (before_pending e ?l0) w)) w UV__POLLOUT = [])
        \<and> (\<exists>xs. closing_list (before_closing e ((before_pending e ?l0)\<lparr>pending_queue := []\<rparr>)) xs)
        \<longrightarrow> uv_run_jx e l UV_RUN_NOWAIT ts tid \<noteq> None"
      using 7 by blast
  qed
qed

lemma refeed_tick_diverges:
  "uv__run_pending refeed_env [] (before_pending refeed_env (one_pending\<lparr>active_handles := 1\<rparr>)) = None"
proof (rule self_feed_diverges [OF feeds_only_relay(2), of 1])
  show "1 \<in> set (pending_queue (before_pending refeed_env (one_pending\<lparr>active_handles := 1\<rparr>)))"
    by (simp add: before_pending_def refeed_env_def idle_env_def one_pending_def)
  show "ActFeed 1 \<in> set (io_cbs refeed_env
      (cb (ios (before_pending refeed_env (one_pending\<lparr>active_handles := 1\<rparr>)) 1)) 1 UV__POLLOUT)"
    by (simp add: refeed_env_def)
qed

theorem nowait_runs_at_most_one_tick_witness:
  "uv_run_jx idle_env (zero_loop\<lparr>active_handles := 1\<rparr>) UV_RUN_NOWAIT None 0
     = Some (Inr (True, zero_loop\<lparr>active_handles := 1\<rparr>, [Some 0]))
   \<and> uv_run_jx idle_env (zero_loop\<lparr>active_handles := 1, stop_flag := 1\<rparr>) UV_RUN_NOWAIT None 0
     = Some (Inr (True, zero_loop\<lparr>active_handles := 1\<rparr>, []))
   \<and> uv_run_jx refeed_env (one_pending\<lparr>active_handles := 1\<rparr>) UV_RUN_NOWAIT None 0 = None
   \<and> uv_run_jx idle_env (one_pending\<lparr>active_handles := 1\<rparr>) UV_RUN_NOWAIT None 0 \<noteq> None"
proof (intro conjI)
  let ?l = "zero_loop\<lparr>active_handles := 1\<rparr>"
  have "uv_run_jx idle_env ?l UV_RUN_NOWAIT None 0 =
       (if uv__loop_alive (set_loop_id ?l 0) \<and> stop_flag (set_loop_id ?l 0) = 0
        then (case run_tick idle_env UV_RUN_NOWAIT (set_loop_id ?l 0) of
                None \<Rightarrow> None
              | Some (Inl x) \<Rightarrow> Some (Inl x)
              | Some (Inr (l1, p)) \<Rightarrow> Some (Inr (uv__loop_alive l1, l1\<lparr>stop_flag := 0\<rparr>, [p])))
        else Some (Inr (uv__loop_alive (set_loop_id ?l 0), (set_loop_id ?l 0)\<lparr>stop_flag := 0\<rparr>, [])))"
    by (rule nowait_runs_at_most_one_tick [THEN conjunct2, THEN conjunct1])
  also have "\<dots> = Some (Inr (True, ?l, [Some 0]))"
    by (simp add: set_loop_id_def uv__loop_alive_def zero_loop_def uv__has_active_reqs_def
      THREAD_ID_ALREADY_DEFINED_def THREAD_ID_NOT_DEFINED_def run_tick_def idle_env_def
      uv__run_pending.simps uv__run_closing_handles_def closing_loop.simps mode_bits_def Let_def)
  finally show "uv_run_jx idle_env ?l UV_RUN_NOWAIT None 0 = Some (Inr (True, ?l, [Some 0]))" .
next
  let ?l = "zero_loop\<lparr>active_handles := 1, stop_flag := 1\<rparr>"
  have "uv_run_jx idle_env ?l UV_RUN_NOWAIT None 0 =
       (if uv__loop_alive (set_loop_id ?l 0) \<and> stop_flag (set_loop_id ?l 0) = 0
        then (case run_tick idle_env UV_RUN_NOWAIT (set_loop_id ?l 0) of
                None \<Rightarrow> None
              | Some (Inl x) \<Rightarrow> Some (Inl x)
              | Some (Inr (l1, p)) \<Rightarrow> Some (Inr (uv__loop_alive l1, l1\<lparr>stop_flag := 0\<rparr>, [p])))
        else Some (Inr (uv__loop_alive (set_loop_id ?l 0), (set_loop_id ?l 0)\<lparr>stop_flag := 0\<rparr>, [])))"
    by (rule nowait_runs_at_most_one_tick [THEN conjunct2, THEN conjunct1])
  also have "\<dots> = Some (Inr (True, zero_loop\<lparr>active_handles := 1\<rparr>, []))"
    by (simp add: set_loop_id_def uv__loop_alive_def zero_loop_def uv__has_active_reqs_def
      THREAD_ID_ALREADY_DEFINED_def THREAD_ID_NOT_DEFINED_def)
  finally show "uv_run_jx idle_env ?l UV_RUN_NOWAIT None 0
     = Some (Inr (True, zero_loop\<lparr>active_handles := 1\<rparr>, []))" .
next
  let ?l = "one_pending\<lparr>active_handles := 1\<rparr>"
  have s: "set_loop_id ?l 0 = ?l"
    by (simp add: set_loop_id_def one_pending_def zero_loop_def THREAD_ID_ALREADY_DEFINED_def
          THREAD_ID_NOT_DEFINED_def)
  have a: "uv__loop_alive (set_loop_id ?l 0) \<and> stop_flag (set_loop_id ?l 0) = 0"
    unfolding s by (simp add: uv__loop_alive_def one_pending_def zero_loop_def)
  note T = nowait_runs_at_most_one_tick [of refeed_env ?l None 0]
  from T have t6: "run_tick refeed_env UV_RUN_NOWAIT ?l = None \<longleftrightarrow>
         uv__run_pending refeed_env [] (before_pending refeed_env ?l) = None
         \<or> (\<exists>l2 calls. uv__run_pending refeed_env [] (before_pending refeed_env ?l) = Some (Inr (l2, calls))
               \<and> uv__run_closing_handles refeed_env (before_closing refeed_env l2) = None)"
    by blast
  with refeed_tick_diverges have "run_tick refeed_env UV_RUN_NOWAIT (set_loop_id ?l 0) = None"
    unfolding s by simp
  moreover from T a have "uv_run_jx refeed_env ?l UV_RUN_NOWAIT None 0 = None
      \<longleftrightarrow> run_tick refeed_env UV_RUN_NOWAIT (set_loop_id ?l 0) = None"
    by blast
  ultimately show "uv_run_jx refeed_env ?l UV_RUN_NOWAIT None 0 = None" by simp
next
  let ?l = "one_pending\<lparr>active_handles := 1\<rparr>"
  have s: "set_loop_id ?l 0 = ?l"
    by (simp add: set_loop_id_def one_pending_def zero_loop_def THREAD_ID_ALREADY_DEFINED_def
          THREAD_ID_NOT_DEFINED_def)
  have q: "\<forall>w\<in>set (pending_queue (before_pending idle_env (set_loop_id ?l 0))).
      io_cbs idle_env (cb (ios (before_pending idle_env (set_loop_id ?l 0)) w)) w UV__POLLOUT = []"
    by (simp add: idle_env_def)
  have c: "closing_list
      (before_closing idle_env ((before_pending idle_env (set_loop_id ?l 0))\<lparr>pending_queue := []\<rparr>)) []"
    unfolding s
    by (simp add: closing_list_def before_closing_def before_pending_def idle_env_def
          one_pending_def zero_loop_def)
  from nowait_runs_at_most_one_tick [of idle_env ?l None 0] hooks_ok_idle q c
  show "uv_run_jx idle_env ?l UV_RUN_NOWAIT None 0 \<noteq> None" by blast
qed

text \<open>A loop that is not alive: the run returns without a tick and without a poll.\<close>

theorem nowait_not_alive_counterexample:
  "\<not> uv__loop_alive zero_loop
   \<and> uv_run idle_env zero_loop UV_RUN_NOWAIT = Some (Inr (False, zero_loop\<lparr>loopId := 63\<rparr>, []))"
  by (simp add: uv_run_def uv_run_jx_def run_jx_with_def set_loop_id_def run_loop.simps
      uv__loop_alive_def zero_loop_def uv__has_active_reqs_def THREAD_ID_ALREADY_DEFINED_def
      THREAD_ID_NOT_DEFINED_def)

subsection \<open>The next power of two\<close>

lemma smear_step:
  fixes x y :: "32 word"
  assumes "\<And>n. bit y n \<longleftrightarrow> (\<exists>j\<le>a. bit x (n + j))" and "b = a + 1" and c: "c = a + b"
  shows "bit (y OR drop_bit b y) n \<longleftrightarrow> (\<exists>j\<le>c. bit x (n + j))"
  unfolding c
proof
  assume "bit (y OR drop_bit b y) n"
  then consider "bit y n" | "bit y (b + n)"
    by (auto simp: bit_or_iff bit_drop_bit_eq)
  then show "\<exists>j\<le>a + b. bit x (n + j)"
  proof cases
    case 1
    then obtain j where "j \<le> a" "bit x (n + j)" using assms(1) by blast
    then show ?thesis by (intro exI [of _ j]) simp
  next
    case 2
    then obtain j where "j \<le> a" "bit x (b + n + j)" using assms(1) by blast
    then show ?thesis by (intro exI [of _ "b + j"]) (simp add: ac_simps)
  qed
next
  assume "\<exists>j\<le>a + b. bit x (n + j)"
  then obtain j where j: "j \<le> a + b" "bit x (n + j)" by blast
  show "bit (y OR drop_bit b y) n"
  proof (cases "j \<le> a")
    case True
    with j assms(1) have "bit y n" by blast
    then show ?thesis by (simp add: bit_or_iff)
  next
    case False
    then have ja: "j - b \<le> a" and eq: "b + n + (j - b) = n + j" using j assms(2) by simp_all
    from j(2) have "bit x (b + n + (j - b))" by (simp only: eq)
    with ja have "\<exists>i\<le>a. bit x (b + n + i)" by blast
    then have "bit y (b + n)" by (simp only: assms(1))
    then show ?thesis by (simp add: bit_or_iff bit_drop_bit_eq)
  qed
qed

lemma smear_bits:
  fixes x :: "32 word"
  defines "v1 \<equiv> x OR drop_bit 1 x"
  defines "v2 \<equiv> v1 OR drop_bit 2 v1"
  defines "v3 \<equiv> v2 OR drop_bit 4 v2"
  defines "v4 \<equiv> v3 OR drop_bit 8 v3"
  defines "v5 \<equiv> v4 OR drop_bit 16 v4"
  shows "bit v5 n \<longleftrightarrow> (\<exists>m\<ge>n. bit x m)"
proof -
  have 0: "bit x n \<longleftrightarrow> (\<exists>j\<le>0. bit x (n + j))" for n by simp
  have 1: "bit v1 n \<longleftrightarrow> (\<exists>j\<le>1. bit x (n + j))" for n
    unfolding v1_def by (rule smear_step [OF 0]) simp_all
  have 2: "bit v2 n \<longleftrightarrow> (\<exists>j\<le>3. bit x (n + j))" for n
    unfolding v2_def by (rule smear_step [OF 1]) simp_all
  have 3: "bit v3 n \<longleftrightarrow> (\<exists>j\<le>7. bit x (n + j))" for n
    unfolding v3_def by (rule smear_step [OF 2]) simp_all
  have 4: "bit v4 n \<longleftrightarrow> (\<exists>j\<le>15. bit x (n + j))" for n
    unfolding v4_def by (rule smear_step [OF 3]) simp_all
  have 5: "bit v5 n \<longleftrightarrow> (\<exists>j\<le>31. bit x (n + j))" for n
    unfolding v5_def by (rule smear_step [OF 4]) simp_all
  show ?thesis
  proof
    assume "bit v5 n"
    with 5 obtain j where "bit x (n + j)" by blast
    then show "\<exists>m\<ge>n. bit x m" by (intro exI [of _ "n + j"]) simp
  next
    assume "\<exists>m\<ge>n. bit x m"
    then obtain m where m: "n \<le> m" "bit x m" by blast
    then have "m < 32" using bit_imp_le_length [of x m] by simp
    with m have mn: "m - n \<le> 31" and eq: "n + (m - n) = m" by simp_all
    from m(2) have "bit x (n + (m - n))" by (simp only: eq)
    with mn have "\<exists>j\<le>31. bit x (n + j)" by blast
    then show "bit v5 n" by (simp only: 5)
  qed
qed

lemma nat_bit_above: "(\<exists>m\<ge>n. bit (X :: nat) m) \<longleftrightarrow> 2 ^ n \<le> X"
proof
  assume "\<exists>m\<ge>n. bit X m"
  then obtain m where m: "n \<le> m" "bit X m" by blast
  then have "odd (X div 2 ^ m)" by (simp add: bit_nat_def)
  then have "X div 2 ^ m \<noteq> 0" by (intro notI) simp
  then have a: "2 ^ m \<le> X" by (simp add: div_eq_0_iff not_less)
  have b: "(2 :: nat) ^ n \<le> 2 ^ m" using m(1) by simp
  from b a show "2 ^ n \<le> X" by (rule le_trans)
next
  assume "2 ^ n \<le> X"
  then have "take_bit n X \<noteq> X" by (simp add: take_bit_nat_eq_self_iff)
  then obtain m where "bit (take_bit n X) m \<noteq> bit X m" by (auto simp: bit_eq_iff)
  then have "n \<le> m \<and> bit X m" by (auto simp: bit_take_bit_iff)
  then show "\<exists>m\<ge>n. bit X m" by blast
qed



lemma bit_length_ex:
  fixes X :: nat
  assumes "X < 2 ^ 32"
  shows "\<exists>k\<le>32. X < 2 ^ k \<and> (\<forall>n. n < k \<longleftrightarrow> 2 ^ n \<le> X)"
proof -
  define k where "k = (LEAST k. X < 2 ^ k)"
  have 1: "X < 2 ^ k" unfolding k_def using assms by (rule LeastI)
  have 2: "k \<le> 32" unfolding k_def using assms by (rule Least_le)
  have 3: "n < k \<longleftrightarrow> 2 ^ n \<le> X" for n
  proof
    assume "n < k"
    then have "\<not> X < 2 ^ n" unfolding k_def by (rule not_less_Least)
    then show "2 ^ n \<le> X" by simp
  next
    assume a: "2 ^ n \<le> X"
    show "n < k"
    proof (rule ccontr)
      assume "\<not> n < k"
      then have "(2 :: nat) ^ k \<le> 2 ^ n" by simp
      with 1 a show False by simp
    qed
  qed
  from 2 1 3 show ?thesis by blast
qed

lemma smear_mask:
  fixes x :: "32 word"
  shows "\<exists>k\<le>32. unat x < 2 ^ k \<and> (\<forall>n. n < k \<longleftrightarrow> 2 ^ n \<le> unat x)
    \<and> next_power_of_two (x + 1) = 2 ^ k"
proof -
  have "unat x < 2 ^ 32" using unsigned_less [of x] by simp
  from bit_length_ex [OF this]
  obtain k where k: "k \<le> 32" "unat x < 2 ^ k" "\<And>n. n < k \<longleftrightarrow> 2 ^ n \<le> unat x"
    by blast
  define v5 where "v5 = (let v1 = x OR drop_bit 1 x; v2 = v1 OR drop_bit 2 v1;
      v3 = v2 OR drop_bit 4 v2; v4 = v3 OR drop_bit 8 v3 in v4 OR drop_bit 16 v4)"
  have b: "bit v5 n \<longleftrightarrow> (\<exists>m\<ge>n. bit x m)" for n
    unfolding v5_def Let_def by (rule smear_bits)
  have "bit v5 n \<longleftrightarrow> n < k" for n
  proof -
    have "(\<exists>m\<ge>n. bit x m) \<longleftrightarrow> (\<exists>m\<ge>n. bit (unat x) m)"
      by (simp add: bit_unsigned_iff)
    also have "\<dots> \<longleftrightarrow> 2 ^ n \<le> unat x" by (rule nat_bit_above)
    also have "\<dots> \<longleftrightarrow> n < k" by (simp add: k(3))
    finally show ?thesis using b by simp
  qed
  then have "v5 = mask k"
    using k(1) by (auto simp: bit_eq_iff bit_mask_iff possible_bit_word)
  then have "v5 + 1 = 2 ^ k" by (simp add: inc_mask_eq_exp)
  moreover have "next_power_of_two (x + 1) = v5 + 1"
    by (simp add: next_power_of_two_def v5_def Let_def)
  ultimately have "next_power_of_two (x + 1) = 2 ^ k" by simp
  with k show ?thesis by blast
qed


lemma unat_pow2: "k < 32 \<Longrightarrow> unat (2 ^ k :: 32 word) = 2 ^ k"
proof -
  assume "k < 32"
  then have "(2 :: nat) ^ k < 2 ^ 32" by (intro power_strict_increasing) simp_all
  then have lt: "(2 :: nat) ^ k < 4294967296" by simp
  have "unat (2 ^ k :: 32 word) = unat (word_of_nat (2 ^ k) :: 32 word)" by simp
  also have "\<dots> = 2 ^ k mod 2 ^ LENGTH(32)" by (rule unat_of_nat)
  also have "\<dots> = 2 ^ k" using lt by simp
  finally show ?thesis .
qed

lemma next_power_of_two_spec:
  assumes "0 < unat v" and "unat v \<le> 2 ^ 31"
  shows "\<exists>k<32. unat (next_power_of_two v) = 2 ^ k \<and> unat v \<le> 2 ^ k
           \<and> (\<forall>j. unat v \<le> 2 ^ j \<longrightarrow> k \<le> j)"
proof -
  from assms(1) have v0: "v \<noteq> 0" by auto
  then have ux: "unat (v - 1) = unat v - 1" by (rule unat_minus_one)
  from smear_mask [of "v - 1"] obtain k where
    k: "k \<le> 32" "unat (v - 1) < 2 ^ k" "\<And>n. n < k \<longleftrightarrow> 2 ^ n \<le> unat (v - 1)"
    "next_power_of_two v = 2 ^ k"
    by auto
  have "\<not> 2 ^ 31 \<le> unat (v - 1)" using assms ux by simp
  then have "\<not> 31 < k" by (simp add: k(3))
  then have k32: "k < 32" by simp
  have 1: "unat (next_power_of_two v) = 2 ^ k" by (simp add: k(4) unat_pow2 [OF k32])
  have 2: "unat v \<le> 2 ^ k" using k(2) ux assms(1) by simp
  have 3: "k \<le> j" if "unat v \<le> 2 ^ j" for j
  proof -
    from that ux assms(1) have "\<not> 2 ^ j \<le> unat (v - 1)" by simp
    then have "\<not> j < k" by (simp add: k(3))
    then show ?thesis by simp
  qed
  from k32 1 2 3 show ?thesis by blast
qed

lemma next_power_of_two_wrap:
  assumes "unat v = 0 \<or> 2 ^ 31 < unat v"
  shows "next_power_of_two v = 0"
proof -
  have "2 ^ 31 \<le> unat (v - 1)"
  proof (cases "v = 0")
    case True
    then show ?thesis by (simp add: unsigned_minus_1_eq_mask mask_eq_exp_minus_1)
  next
    case False
    then have "unat (v - 1) = unat v - 1" by (rule unat_minus_one)
    moreover from False have "unat v \<noteq> 0" by (simp add: unat_eq_0)
    ultimately show ?thesis using assms by simp
  qed
  from smear_mask [of "v - 1"] obtain k where
    k: "k \<le> 32" "\<And>n. n < k \<longleftrightarrow> 2 ^ n \<le> unat (v - 1)" "next_power_of_two v = 2 ^ k"
    by auto
  from \<open>2 ^ 31 \<le> unat (v - 1)\<close> have "31 < k" by (simp add: k(2))
  with k(1) have "k = 32" by simp
  with k(3) show ?thesis by simp
qed

subsection \<open>Growing the watcher table\<close>

lemma word_add_no_wrap:
  fixes a b :: "32 word"
  assumes "unat a < unat (a + b)"
  shows "unat (a + b) = unat a + unat b"
proof -
  from assms have "a \<le> a + b" by (simp add: word_le_nat_alt)
  then show ?thesis by (simp add: unat_plus_simple)
qed

lemma word_succ_below:
  fixes i n :: "32 word"
  assumes "i < n"
  shows "unat (i + 1) = unat i + 1"
proof -
  from assms have "unat i < unat n" by (simp add: word_less_nat_alt)
  moreover have "unat n < 2 ^ 32" using unsigned_less [of n] by simp
  ultimately show ?thesis by (simp add: unat_word_ariths)
qed

lemma null_fill_Inr:
  "null_fill a i n = Inr a' \<Longrightarrow> a = Some xs \<Longrightarrow>
   \<exists>ys. a' = Some ys \<and> length ys = length xs
      \<and> (\<forall>j<length xs. ys ! j = (if unat i \<le> j \<and> j < unat n then None else xs ! j))"
proof (induction a i n arbitrary: xs rule: null_fill.induct)
  case (1 a i n)
  show ?case
  proof (cases "i < n")
    case False
    then have "\<not> unat i < unat n" by (simp add: word_less_nat_alt)
    from 1(2) False have "a' = a" by (subst (asm) null_fill.simps) simp
    with 1(3) \<open>\<not> unat i < unat n\<close> show ?thesis by auto
  next
    case True
    from 1(2) True have st: "(case array_set a (unat i) None of Inl x \<Rightarrow> Inl x
        | Inr a1 \<Rightarrow> null_fill a1 (i + 1) n) = Inr a'"
      by (subst (asm) null_fill.simps) simp
    then have in_range: "unat i < length xs"
      using 1(3) by (auto simp: array_set_def split: if_splits)
    with st 1(3) have rec: "null_fill (Some (xs[unat i := None])) (i + 1) n = Inr a'"
      by (simp add: array_set_def)
    have set: "array_set a (unat i) None = Inr (Some (xs[unat i := None]))"
      using in_range 1(3) by (simp add: array_set_def)
    from 1(1) [OF True set rec refl] obtain ys where
      ys: "a' = Some ys" "length ys = length xs"
      "\<forall>j<length xs. ys ! j = (if unat (i + 1) \<le> j \<and> j < unat n then None else xs[unat i := None] ! j)"
      by auto
    have s: "unat (i + 1) = unat i + 1" by (rule word_succ_below [OF True])
    have lt: "unat i < unat n" using True by (simp add: word_less_nat_alt)
    have "ys ! j = (if unat i \<le> j \<and> j < unat n then None else xs ! j)" if "j < length xs" for j
      using ys(3) that s lt in_range by (cases "j = unat i") auto
    with ys show ?thesis by blast
  qed
qed

lemma null_fill_ok:
  "unat n \<le> length xs \<Longrightarrow> a = Some xs \<Longrightarrow> \<exists>a'. null_fill a i n = Inr a'"
proof (induction a i n arbitrary: xs rule: null_fill.induct)
  case (1 a i n)
  show ?case
  proof (cases "i < n")
    case False
    then show ?thesis by (subst null_fill.simps) simp
  next
    case True
    then have lt: "unat i < unat n" by (simp add: word_less_nat_alt)
    with 1(2) have in_range: "unat i < length xs" by simp
    have set: "array_set a (unat i) None = Inr (Some (xs[unat i := None]))"
      using in_range 1(3) by (simp add: array_set_def)
    have "unat n \<le> length (xs[unat i := None])" using 1(2) by simp
    from 1(1) [OF True set this refl] obtain a' where
      "null_fill (Some (xs[unat i := None])) (i + 1) n = Inr a'" by blast
    with True set show ?thesis by (subst null_fill.simps) simp
  qed
qed


lemma saved_fake_watchers_ok:
  assumes "table_ok l" and "nwatchers l < len"
  shows "saved_fake_watchers l = Inr (aux_slots l)"
proof (cases "watchers l")
  case None
  then show ?thesis by (simp add: saved_fake_watchers_def aux_slots_def)
next
  case (Some old)
  with assms(1) have len: "length old = unat (nwatchers l) + 2" by (simp add: table_ok_def)
  have s: "unat (nwatchers l + 1) = unat (nwatchers l) + 1" by (rule word_succ_below [OF assms(2)])
  show ?thesis
    using Some len s by (simp add: saved_fake_watchers_def aux_slots_def array_get_def)
qed

lemma array_set_Inr:
  "array_set a i v = Inr a' \<longleftrightarrow> (\<exists>xs. a = Some xs \<and> i < length xs \<and> a' = Some (xs[i := v]))"
  by (auto simp: array_set_def split: option.splits)

text \<open>The steps of a call of maybe_resize that grows the table and returns.\<close>

lemma maybe_resize_steps:
  assumes t: "table_ok l" and g: "nwatchers l < len" and r: "maybe_resize e l len = Inr l'"
  shows "\<exists>ws ys1. realloc e (watchers l) (unat (next_power_of_two (len + 2) - 2 + 2)) = Some ws
      \<and> null_fill (Some ws) (nwatchers l) (next_power_of_two (len + 2) - 2) = Inr (Some ys1)
      \<and> unat (next_power_of_two (len + 2) - 2) < length ys1
      \<and> unat (next_power_of_two (len + 2) - 2 + 1) < length ys1
      \<and> l' = l\<lparr>watchers := Some (ys1[unat (next_power_of_two (len + 2) - 2) := fst (aux_slots l),
                                      unat (next_power_of_two (len + 2) - 2 + 1) := snd (aux_slots l)]),
               nwatchers := next_power_of_two (len + 2) - 2\<rparr>"
proof -
  let ?nw = "next_power_of_two (len + 2) - 2"
  from g have ng: "\<not> len \<le> nwatchers l" by simp
  obtain f1 f2 where f: "aux_slots l = (f1, f2)" by (cases "aux_slots l")
  from r ng saved_fake_watchers_ok [OF t g] f
  obtain ws a1 a2 a3 where ws: "realloc e (watchers l) (unat (?nw + 2)) = Some ws"
    and a1: "null_fill (Some ws) (nwatchers l) ?nw = Inr a1"
    and a2: "array_set a1 (unat ?nw) f1 = Inr a2"
    and a3: "array_set a2 (unat (?nw + 1)) f2 = Inr a3"
    and l': "l' = l\<lparr>watchers := a3, nwatchers := ?nw\<rparr>"
    by (auto simp: maybe_resize_def Let_def split: option.splits sum.splits)
  from a2 obtain ys1 where y1: "a1 = Some ys1" "unat ?nw < length ys1" "a2 = Some (ys1[unat ?nw := f1])"
    by (auto simp: array_set_Inr)
  from a3 y1 have y3: "unat (?nw + 1) < length ys1" "a3 = Some (ys1[unat ?nw := f1, unat (?nw + 1) := f2])"
    by (auto simp: array_set_Inr)
  from ws a1 y1 y3 l' f show ?thesis by simp
qed


text \<open>
  Both auxiliary writes land inside an array of \<open>unat (nw + 2)\<close> elements only when
  neither \<open>len + 2\<close>, nor the rounding, nor \<open>nw + 2\<close> has wrapped around.
\<close>

lemma resize_no_wrap:
  fixes len :: "32 word"
  defines "nw \<equiv> next_power_of_two (len + 2) - 2"
  assumes i1: "unat nw < unat (nw + 2)"
  shows "\<exists>k<32. unat nw + 2 = 2 ^ k \<and> unat len + 2 \<le> 2 ^ k
            \<and> (\<forall>j. unat len + 2 \<le> 2 ^ j \<longrightarrow> k \<le> j)
            \<and> unat (nw + 2) = unat nw + 2 \<and> unat (nw + 1) = unat nw + 1"
proof -
  let ?P = "next_power_of_two (len + 2)"
  have u2: "unat (2 :: 32 word) = 2" by simp
  have e2: "unat (nw + 2) = unat nw + 2"
    using word_add_no_wrap [OF i1] u2 by simp
  have lt: "unat (nw + 2) < 2 ^ 32" using unsigned_less [of "nw + 2"] by simp
  have e1: "unat (nw + 1) = unat nw + 1"
    using e2 lt by (simp add: unat_word_ariths)
  have P2: "2 \<le> unat ?P"
  proof (rule ccontr)
    assume "\<not> 2 \<le> unat ?P"
    then have "unat nw = unat ?P + 2 ^ 32 - 2"
      unfolding nw_def by (simp add: unat_sub_if')
    with e2 lt show False by simp
  qed
  then have nwP: "unat nw = unat ?P - 2"
    unfolding nw_def by (simp add: unat_sub_if')
  have "\<not> (unat (len + 2) = 0 \<or> 2 ^ 31 < unat (len + 2))"
  proof
    assume "unat (len + 2) = 0 \<or> 2 ^ 31 < unat (len + 2)"
    then have "?P = 0" by (rule next_power_of_two_wrap)
    with P2 show False by simp
  qed
  then have "0 < unat (len + 2)" "unat (len + 2) \<le> 2 ^ 31" by simp_all
  from next_power_of_two_spec [OF this]
  obtain k where k: "k < 32" "unat ?P = 2 ^ k" "unat (len + 2) \<le> 2 ^ k"
      "\<forall>j. unat (len + 2) \<le> 2 ^ j \<longrightarrow> k \<le> j" by blast
  have v: "unat (len + 2) = unat len + 2"
  proof (rule ccontr)
    assume n: "unat (len + 2) \<noteq> unat len + 2"
    have m: "unat (len + 2) = (unat len + 2) mod 2 ^ 32" by (simp add: unat_word_ariths)
    have ll: "unat len < 2 ^ 32" using unsigned_less [of len] by simp
    from n m have ge: "2 ^ 32 \<le> unat len + 2" by (cases "unat len + 2 < 2 ^ 32") simp_all
    from ge ll have "(unat len + 2) mod 2 ^ 32 = unat len + 2 - 2 ^ 32"
      by (simp add: mod_if)
    with m ll have "unat (len + 2) \<le> 1" by simp
    then have "unat (len + 2) \<le> 2 ^ 0" by simp
    with k(4) have "k \<le> 0" by blast
    with k(2) P2 show False by simp
  qed
  from P2 nwP k(2) have s: "unat nw + 2 = 2 ^ k" by simp
  from k v s e2 e1 show ?thesis by auto
qed


lemma maybe_resize_grow:
  assumes ok: "realloc_ok e" and t: "table_ok l" and g: "nwatchers l < len"
    and r: "maybe_resize e l len = Inr l'"
  shows "\<exists>k ys. k < 32 \<and> unat (nwatchers l') + 2 = 2 ^ k \<and> unat len + 2 \<le> 2 ^ k
      \<and> (\<forall>j. unat len + 2 \<le> 2 ^ j \<longrightarrow> k \<le> j)
      \<and> l' = l\<lparr>watchers := Some ys, nwatchers := nwatchers l'\<rparr>
      \<and> length ys = unat (nwatchers l') + 2
      \<and> (\<forall>i<unat (nwatchers l). ys ! i = (case watchers l of None \<Rightarrow> None | Some xs \<Rightarrow> xs ! i))
      \<and> (\<forall>i. unat (nwatchers l) \<le> i \<and> i < unat (nwatchers l') \<longrightarrow> ys ! i = None)
      \<and> (ys ! unat (nwatchers l'), ys ! (unat (nwatchers l') + 1)) = aux_slots l"
proof -
  define nw where "nw = next_power_of_two (len + 2) - 2"
  from maybe_resize_steps [OF t g r]
  obtain ws ys1 where ws: "realloc e (watchers l) (unat (nw + 2)) = Some ws"
    and nf: "null_fill (Some ws) (nwatchers l) nw = Inr (Some ys1)"
    and i1: "unat nw < length ys1" and i2: "unat (nw + 1) < length ys1"
    and l': "l' = l\<lparr>watchers := Some (ys1[unat nw := fst (aux_slots l),
                                      unat (nw + 1) := snd (aux_slots l)]), nwatchers := nw\<rparr>"
    unfolding nw_def by blast
  from ok ws have lw: "length ws = unat (nw + 2)"
    and keep: "\<And>xs i. watchers l = Some xs \<Longrightarrow> i < unat (nw + 2) \<Longrightarrow> i < length xs \<Longrightarrow> ws ! i = xs ! i"
    unfolding realloc_ok_def by blast+
  from null_fill_Inr [OF nf refl]
  have ly: "length ys1 = length ws"
    and fill: "\<And>j. j < length ws \<Longrightarrow> ys1 ! j = (if unat (nwatchers l) \<le> j \<and> j < unat nw then None else ws ! j)"
    by auto
  from i1 ly lw have "unat nw < unat (nw + 2)" by simp
  from resize_no_wrap [OF this [unfolded nw_def]]
  obtain k where k: "k < 32" "unat nw + 2 = 2 ^ k" "unat len + 2 \<le> 2 ^ k"
      "\<forall>j. unat len + 2 \<le> 2 ^ j \<longrightarrow> k \<le> j"
      "unat (nw + 2) = unat nw + 2" "unat (nw + 1) = unat nw + 1"
    unfolding nw_def [symmetric] by blast
  define ys where "ys = ys1[unat nw := fst (aux_slots l), unat (nw + 1) := snd (aux_slots l)]"
  have n': "nwatchers l' = nw" using l' by simp
  have len_ys: "length ys = unat nw + 2" using ly lw k(5) by (simp add: ys_def)
  from g have gl: "unat (nwatchers l) < unat len" by (simp add: word_less_nat_alt)
  from k(2,3) have ln: "unat len \<le> unat nw" by simp
  have low: "ys ! i = ys1 ! i" if "i < unat nw" for i
    using that k(6) by (simp add: ys_def)
  have old: "ys ! i = (case watchers l of None \<Rightarrow> None | Some xs \<Rightarrow> xs ! i)" if "i < unat (nwatchers l)" for i
  proof -
    from that gl ln have inw: "i < unat nw" by simp
    with lw k(5) have "i < length ws" by simp
    from fill [OF this] that have y: "ys1 ! i = ws ! i" by simp
    show ?thesis
    proof (cases "watchers l")
      case None
      with t that show ?thesis by (simp add: table_ok_def)
    next
      case (Some xs)
      with t that have "i < length xs" by (simp add: table_ok_def)
      from keep [OF Some _ this] inw k(5) have "ws ! i = xs ! i" by simp
      with y low [OF inw] Some show ?thesis by simp
    qed
  qed
  have new: "ys ! i = None" if "unat (nwatchers l) \<le> i \<and> i < unat nw" for i
  proof -
    from that lw k(5) have "i < length ws" by simp
    from fill [OF this] that low [of i] show ?thesis by simp
  qed
  have aux: "(ys ! unat nw, ys ! (unat nw + 1)) = aux_slots l"
    using i1 i2 k(6) by (simp add: ys_def)
  from l' have eq: "l' = l\<lparr>watchers := Some ys, nwatchers := nwatchers l'\<rparr>"
    by (simp add: ys_def)
  show ?thesis
    using k(1-4) eq len_ys old new aux unfolding n'
    by (intro exI [of _ k] exI [of _ ys] conjI allI impI) simp_all
qed


lemma maybe_resize_returns:
  assumes ok: "realloc_ok e" and t: "table_ok l" and g: "nwatchers l < len"
    and b: "unat len + 2 \<le> 2 ^ 31"
    and ws: "realloc e (watchers l) (unat (next_power_of_two (len + 2))) = Some ws"
  shows "\<exists>l'. maybe_resize e l len = Inr l'"
proof -
  let ?P = "next_power_of_two (len + 2)"
  define nw where "nw = ?P - 2"
  have P: "nw + 2 = ?P" by (simp add: nw_def)
  have "unat (len + 2) = (unat len + 2) mod 2 ^ 32" by (simp add: unat_word_ariths)
  with b have v: "unat (len + 2) = unat len + 2" by simp
  with b have "0 < unat (len + 2)" "unat (len + 2) \<le> 2 ^ 31" by simp_all
  from next_power_of_two_spec [OF this] v
  obtain k where k: "k < 32" "unat ?P = 2 ^ k" "unat len + 2 \<le> 2 ^ k" by auto
  from k have P2: "2 \<le> unat ?P" by simp
  then have nwP: "unat nw = unat ?P - 2" unfolding nw_def by (simp add: unat_sub_if')
  have lt: "unat ?P < 2 ^ 32" using unsigned_less [of ?P] by simp
  have "unat (nw + 1) = (unat nw + 1) mod 2 ^ 32" by (simp add: unat_word_ariths)
  with nwP P2 lt have e1: "unat (nw + 1) = unat ?P - 1" by simp
  from ok ws have lw: "length ws = unat ?P" unfolding realloc_ok_def by blast
  from nwP lw have "unat nw \<le> length ws" by simp
  from null_fill_ok [OF this refl]
  obtain a1 where a1: "null_fill (Some ws) (nwatchers l) nw = Inr a1" by blast
  from null_fill_Inr [OF a1 refl]
  obtain ys1 where y: "a1 = Some ys1" "length ys1 = length ws" by blast
  from y lw nwP P2 have i1: "unat nw < length ys1" by simp
  from y lw e1 P2 have i2: "unat (nw + 1) < length ys1" by simp
  from g have ng: "\<not> len \<le> nwatchers l" by simp
  obtain f1 f2 where f: "aux_slots l = (f1, f2)" by (cases "aux_slots l")
  show ?thesis
    using ng saved_fake_watchers_ok [OF t g] f ws a1 y(1) i1 i2
    unfolding nw_def [symmetric] P [symmetric]
    by (simp add: maybe_resize_def Let_def array_set_def nw_def [symmetric])
qed

subsection \<open>Capacity of the watcher table\<close>

lemma realloc_ok_idle: "realloc_ok idle_env"
  by (auto simp: realloc_ok_def idle_env_def nth_append split: option.splits)

lemma table_ok_small: "table_ok small_table"
  by (simp add: table_ok_def small_table_def zero_loop_def)

lemma grow_small:
  "map_sum id (\<lambda>l. (watchers l, nwatchers l)) (maybe_resize idle_env small_table 3)
     = Inr (Some [Some 7, None, None, None, None, None, Some 8, Some 9], 6)"
  by code_simp

lemma slot_keep:
  assumes "table_ok l" and "i < unat (nwatchers l)"
  shows "slot l i = (case watchers l of None \<Rightarrow> None | Some xs \<Rightarrow> xs ! i)"
  using assms by (simp add: slot_def table_ok_def split: option.splits)

text \<open>
  C8. \<^verbatim>\<open>maybe_resize\<close> leaves the loop as it is when the capacity already covers the
  requested length, so the table never shrinks. A call that grows the table and returns
  leaves a capacity \<open>n\<close> such that \<open>n + 2\<close> is the least power of two with
  \<open>len + 2 \<le> n + 2\<close>; every slot below the old capacity and the two auxiliary slots keep
  their contents, the slots from the old capacity up to the new one are \<^verbatim>\<open>NULL\<close>, and
  nothing but the table and its capacity changes. When the allocation fails the process
  aborts; when it succeeds and \<open>len + 2\<close> does not exceed \<open>2 ^ 31\<close> the call returns.
\<close>

theorem maybe_resize_grows_to_power_of_two:
  assumes ok: "realloc_ok e" and t: "table_ok l"
  shows "(len \<le> nwatchers l \<longrightarrow> maybe_resize e l len = Inr l)
    \<and> (\<forall>l'. nwatchers l < len \<and> maybe_resize e l len = Inr l' \<longrightarrow>
          (\<exists>k. unat (nwatchers l') + 2 = 2 ^ k \<and> unat len + 2 \<le> 2 ^ k
               \<and> (\<forall>j. unat len + 2 \<le> 2 ^ j \<longrightarrow> k \<le> j))
          \<and> len \<le> nwatchers l' \<and> table_ok l'
          \<and> (\<forall>i<unat (nwatchers l). slot l' i = slot l i)
          \<and> aux_slots l' = aux_slots l
          \<and> (\<forall>i. unat (nwatchers l) \<le> i \<and> i < unat (nwatchers l') \<longrightarrow> slot l' i = None)
          \<and> l' = l\<lparr>watchers := watchers l', nwatchers := nwatchers l'\<rparr>)
    \<and> (nwatchers l < len
          \<and> realloc e (watchers l) (unat (next_power_of_two (len + 2))) = None \<longrightarrow>
          maybe_resize e l len = Inl Abort)
    \<and> (nwatchers l < len \<and> unat len + 2 \<le> 2 ^ 31
          \<and> realloc e (watchers l) (unat (next_power_of_two (len + 2))) \<noteq> None \<longrightarrow>
          (\<exists>l'. maybe_resize e l len = Inr l'))"
proof (intro conjI allI impI)
  assume "len \<le> nwatchers l"
  then show "maybe_resize e l len = Inr l" by (simp add: maybe_resize_def)
next
  assume a: "nwatchers l < len
     \<and> realloc e (watchers l) (unat (next_power_of_two (len + 2))) = None"
  then have g: "nwatchers l < len" by (rule conjunct1)
  then have ng: "\<not> len \<le> nwatchers l" by simp
  obtain f1 f2 where f: "aux_slots l = (f1, f2)" by (cases "aux_slots l")
  have P: "next_power_of_two (len + 2) - 2 + 2 = next_power_of_two (len + 2)" by simp
  show "maybe_resize e l len = Inl Abort"
    using ng saved_fake_watchers_ok [OF t g] f a
    by (simp add: maybe_resize_def Let_def P)
next
  assume a: "nwatchers l < len \<and> unat len + 2 \<le> 2 ^ 31
     \<and> realloc e (watchers l) (unat (next_power_of_two (len + 2))) \<noteq> None"
  then obtain ws where "realloc e (watchers l) (unat (next_power_of_two (len + 2))) = Some ws"
    by auto
  with a show "\<exists>l'. maybe_resize e l len = Inr l'"
    using maybe_resize_returns [OF ok t] by blast
next
  fix l'
  assume a: "nwatchers l < len \<and> maybe_resize e l len = Inr l'"
  then have g: "nwatchers l < len" and r: "maybe_resize e l len = Inr l'" by simp_all
  from maybe_resize_grow [OF ok t g r]
  obtain k ys where k: "k < 32" "unat (nwatchers l') + 2 = 2 ^ k" "unat len + 2 \<le> 2 ^ k"
      "\<forall>j. unat len + 2 \<le> 2 ^ j \<longrightarrow> k \<le> j"
    and l': "l' = l\<lparr>watchers := Some ys, nwatchers := nwatchers l'\<rparr>"
    and ly: "length ys = unat (nwatchers l') + 2"
    and old: "\<forall>i<unat (nwatchers l). ys ! i = (case watchers l of None \<Rightarrow> None | Some xs \<Rightarrow> xs ! i)"
    and new: "\<forall>i. unat (nwatchers l) \<le> i \<and> i < unat (nwatchers l') \<longrightarrow> ys ! i = None"
    and aux: "(ys ! unat (nwatchers l'), ys ! (unat (nwatchers l') + 1)) = aux_slots l"
    by blast
  from l' have w: "watchers l' = Some ys" by (cases l', cases l) simp
  from g have gl: "unat (nwatchers l) < unat len" by (simp add: word_less_nat_alt)
  from k(2,3) have ln: "unat len \<le> unat (nwatchers l')" by simp
  show "\<exists>k. unat (nwatchers l') + 2 = 2 ^ k \<and> unat len + 2 \<le> 2 ^ k
               \<and> (\<forall>j. unat len + 2 \<le> 2 ^ j \<longrightarrow> k \<le> j)"
    using k by blast
  show "len \<le> nwatchers l'" using ln by (simp add: word_le_nat_alt)
  show t': "table_ok l'" using w ly by (simp add: table_ok_def)
  show "aux_slots l' = aux_slots l" using w aux by (simp add: aux_slots_def)
  show "l' = l\<lparr>watchers := watchers l', nwatchers := nwatchers l'\<rparr>" using l' w by simp
  { fix i assume i: "i < unat (nwatchers l)"
    with gl ln ly w have "slot l' i = ys ! i" by (simp add: slot_def)
    with old i slot_keep [OF t i] show "slot l' i = slot l i" by simp }
  { fix i assume i: "unat (nwatchers l) \<le> i \<and> i < unat (nwatchers l')"
    with ly w have "slot l' i = ys ! i" by (simp add: slot_def)
    with new i show "slot l' i = None" by simp }
qed


theorem maybe_resize_grows_to_power_of_two_witness:
  "realloc_ok idle_env \<and> table_ok small_table \<and> nwatchers small_table < 3
   \<and> (\<exists>l'. maybe_resize idle_env small_table 3 = Inr l'
          \<and> unat (nwatchers l') + 2 = 2 ^ 3
          \<and> slot l' 0 = Some 7 \<and> slot l' 2 = None
          \<and> aux_slots l' = (Some 8, Some 9))"
proof -
  note T = maybe_resize_grows_to_power_of_two [OF realloc_ok_idle table_ok_small, of 3]
  have g: "nwatchers small_table < 3" by (simp add: small_table_def)
  have b: "unat (3 :: 32 word) + 2 \<le> 2 ^ 31" by simp
  have al: "realloc idle_env (watchers small_table) (unat (next_power_of_two (3 + 2))) \<noteq> None"
    by (simp add: idle_env_def)
  from T g b al obtain l' where run: "maybe_resize idle_env small_table 3 = Inr l'" by blast
  from T g run have aux: "aux_slots l' = aux_slots small_table"
    and old: "\<forall>i<unat (nwatchers small_table). slot l' i = slot small_table i"
    and new: "\<forall>i. unat (nwatchers small_table) \<le> i \<and> i < unat (nwatchers l') \<longrightarrow> slot l' i = None"
    by blast+
  from grow_small run have n: "nwatchers l' = 6" by simp
  have n2: "unat (nwatchers small_table) = 2" by (simp add: small_table_def)
  from old n2 have "slot l' 0 = slot small_table 0" by simp
  then have s0: "slot l' 0 = Some 7" by (simp add: slot_def small_table_def)
  from new n n2 have s2: "slot l' 2 = None" by simp
  from aux have a: "aux_slots l' = (Some 8, Some 9)" by (simp add: aux_slots_def small_table_def)
  from n have c: "unat (nwatchers l') + 2 = 2 ^ 3" by simp
  from run c s0 s2 a realloc_ok_idle table_ok_small g show ?thesis by blast
qed

subsection \<open>Starting and stopping a watcher\<close>

lemma unat_of_fd:
  assumes "0 \<le> k" and "k < 2 ^ 32"
  shows "unat (word_of_int k :: 32 word) = nat k"
proof -
  have "uint (word_of_int k :: 32 word) = k mod 2 ^ 32" by (simp add: uint_word_of_int)
  with assms have "uint (word_of_int k :: 32 word) = k" by simp
  then show ?thesis by (simp add: unat_eq_nat_uint)
qed

lemma slot_cong:
  "watchers l' = watchers l \<Longrightarrow> nwatchers l' = nwatchers l \<Longrightarrow> slot l' i = slot l i"
  by (simp add: slot_def split: option.splits)

lemma table_ok_cong:
  "watchers l' = watchers l \<Longrightarrow> nwatchers l' = nwatchers l \<Longrightarrow> table_ok l' = table_ok l"
  by (simp add: table_ok_def split: option.splits)

lemma slot_beyond: "\<not> i < unat (nwatchers l) \<Longrightarrow> slot l i = None"
  by (simp add: slot_def split: option.splits)

lemma table_lookup:
  assumes "table_ok l" and "i < unat (nwatchers l)"
  shows "\<exists>xs. watchers l = Some xs \<and> i < length xs \<and> slot l i = xs ! i
           \<and> length xs = unat (nwatchers l) + 2"
proof (cases "watchers l")
  case None
  with assms show ?thesis by (simp add: table_ok_def)
next
  case (Some xs)
  with assms show ?thesis by (simp add: table_ok_def slot_def)
qed

text \<open>What a returning call of maybe_resize leaves of the table, growing or not.\<close>

lemma maybe_resize_frame:
  assumes ok: "realloc_ok e" and t: "table_ok l" and r: "maybe_resize e l len = Inr l'"
  shows "table_ok l' \<and> len \<le> nwatchers l' \<and> (\<forall>i. slot l' i = slot l i)
     \<and> l' = l\<lparr>watchers := watchers l', nwatchers := nwatchers l'\<rparr>"
proof (cases "len \<le> nwatchers l")
  case True
  with r have "l' = l" by (simp add: maybe_resize_def)
  with t True show ?thesis by simp
next
  case False
  then have g: "nwatchers l < len" by simp
  from maybe_resize_grow [OF ok t g r]
  obtain k ys where k: "unat (nwatchers l') + 2 = 2 ^ k" "unat len + 2 \<le> 2 ^ k"
    and l': "l' = l\<lparr>watchers := Some ys, nwatchers := nwatchers l'\<rparr>"
    and ly: "length ys = unat (nwatchers l') + 2"
    and old: "\<forall>i<unat (nwatchers l). ys ! i = (case watchers l of None \<Rightarrow> None | Some xs \<Rightarrow> xs ! i)"
    and new: "\<forall>i. unat (nwatchers l) \<le> i \<and> i < unat (nwatchers l') \<longrightarrow> ys ! i = None"
    by blast
  from l' have w: "watchers l' = Some ys" by (cases l', cases l) simp
  from g have gl: "unat (nwatchers l) < unat len" by (simp add: word_less_nat_alt)
  from k have ln: "unat len \<le> unat (nwatchers l')" by simp
  have t': "table_ok l'" using w ly by (simp add: table_ok_def)
  have le: "len \<le> nwatchers l'" using ln by (simp add: word_le_nat_alt)
  have sl: "slot l' i = slot l i" for i
  proof (cases "i < unat (nwatchers l')")
    case False
    with gl ln have "\<not> i < unat (nwatchers l)" by simp
    with False show ?thesis by (simp add: slot_beyond)
  next
    case True
    with ly w have y: "slot l' i = ys ! i" by (simp add: slot_def)
    show ?thesis
    proof (cases "i < unat (nwatchers l)")
      case True
      from table_lookup [OF t this] obtain xs where "watchers l = Some xs" "slot l i = xs ! i"
        by blast
      with old True y show ?thesis by simp
    next
      case False
      with new True y show ?thesis by (simp add: slot_beyond)
    qed
  qed
  from t' le sl l' w show ?thesis by simp
qed


lemma register_watcher_inv:
  assumes t: "table_ok l2" and d0: "0 \<le> fd (ios l2 w)" and d1: "fd (ios l2 w) < INT_MAX"
    and cap: "nat (fd (ios l2 w)) < unat (nwatchers l2)"
    and p: "pevents (ios l2 w) \<noteq> 0"
    and sl: "slot l2 (nat (fd (ios l2 w))) = None \<or> slot l2 (nat (fd (ios l2 w))) = Some w"
    and ev: "events (ios l2 w) \<noteq> 0 \<longrightarrow> slot l2 (nat (fd (ios l2 w))) = Some w"
    and r: "register_watcher l2 w = Inr l'"
  shows "watcher_inv l' w \<and> ios l' = ios l2"
proof -
  let ?i = "nat (fd (ios l2 w))"
  from table_lookup [OF t cap]
  obtain xs where xs: "watchers l2 = Some xs" "?i < length xs" "slot l2 ?i = xs ! ?i"
      "length xs = unat (nwatchers l2) + 2" by blast
  show ?thesis
  proof (cases "events (ios l2 w) = pevents (ios l2 w)")
    case True
    with p ev have s: "slot l2 ?i = Some w" by simp
    from r True p have "ios l' = ios l2 \<and> watchers l' = watchers l2 \<and> nwatchers l' = nwatchers l2"
      by (simp add: register_watcher_def)
    then have i: "ios l' = ios l2" and w: "watchers l' = watchers l2"
      and n: "nwatchers l' = nwatchers l2" by simp_all
    from t d0 d1 p s show ?thesis
      unfolding watcher_inv_def i slot_cong [OF w n] table_ok_cong [OF w n] by simp
  next
    case False
    define l3 where "l3 = (if w \<notin> set (watcher_queue l2)
                  then l2\<lparr>watcher_queue := watcher_queue l2 @ [w]\<rparr> else l2)"
    have l3: "ios l3 = ios l2" "watchers l3 = watchers l2" "nwatchers l3 = nwatchers l2"
      by (simp_all add: l3_def)
    from r False have r3: "(case xs ! ?i of
              Some v \<Rightarrow> Inr l3
            | None \<Rightarrow> Inr (l3\<lparr>watchers := Some (xs[?i := Some w]), nfds := nfds l3 + 1\<rparr>)) = Inr l'"
      using xs(1,2) l3
      by (simp add: register_watcher_def Let_def l3_def [symmetric] array_get_def array_set_def
            split: option.splits)
    show ?thesis
    proof (cases "xs ! ?i")
      case None
      with r3 have l': "l' = l3\<lparr>watchers := Some (xs[?i := Some w]), nfds := nfds l3 + 1\<rparr>"
        by simp
      from l' l3 have i: "ios l' = ios l2" by simp
      from l' l3 xs cap have s: "slot l' ?i = Some w" by (simp add: slot_def)
      from l' l3 xs have t': "table_ok l'" by (simp add: table_ok_def)
      from t' d0 d1 p s show ?thesis unfolding watcher_inv_def i by simp
    next
      case (Some v)
      with r3 have l': "l' = l3" by simp
      from Some xs(3) sl have s: "slot l2 ?i = Some w" by simp
      from l' l3 have i: "ios l' = ios l2" and w: "watchers l' = watchers l2"
        and n: "nwatchers l' = nwatchers l2" by simp_all
      from t d0 d1 p s show ?thesis
        unfolding watcher_inv_def i slot_cong [OF w n] table_ok_cong [OF w n] by simp
    qed
  qed
qed

lemma or_neq_0:
  fixes a b :: "32 word"
  shows "b \<noteq> 0 \<Longrightarrow> a OR b \<noteq> 0"
  by (simp add: or_eq_0_iff)

lemma uv__io_start_inv:
  assumes ok: "realloc_ok e" and inv: "watcher_inv l w" and r: "uv__io_start e l w ev = Inr l'"
  shows "watcher_inv l' w \<and> fd (ios l' w) = fd (ios l w)"
proof -
  let ?d = "fd (ios l w)"
  from inv have t: "table_ok l" and d0: "0 \<le> ?d" and d1: "?d < INT_MAX"
    and sl: "slot l (nat ?d) = (if pevents (ios l w) = 0 then None else Some w)"
    and e0: "pevents (ios l w) = 0 \<longrightarrow> events (ios l w) = 0"
    by (simp_all add: watcher_inv_def)
  have ev: "ev \<noteq> 0" using r by (cases "ev = 0") (simp_all add: uv__io_start_def)
  define l1 where "l1 = upd_io w (\<lambda>x. x\<lparr>pevents := pevents x OR ev\<rparr>) l"
  have l1: "watchers l1 = watchers l" "nwatchers l1 = nwatchers l" "fd (ios l1 w) = ?d"
    "events (ios l1 w) = events (ios l w)" "pevents (ios l1 w) = pevents (ios l w) OR ev"
    by (simp_all add: l1_def upd_io_def)
  from r d0 d1 ev obtain l2 where m: "maybe_resize e l1 (word_of_int (?d + 1)) = Inr l2"
    and g: "register_watcher l2 w = Inr l'"
    by (auto simp: uv__io_start_def Let_def l1_def [symmetric] l1(3) split: if_splits sum.splits)
  from t have t1: "table_ok l1" by (simp add: table_ok_cong [OF l1(1,2)])
  from maybe_resize_frame [OF ok t1 m]
  have t2: "table_ok l2" and le: "word_of_int (?d + 1) \<le> nwatchers l2"
    and s2: "\<And>i. slot l2 i = slot l1 i"
    and l2: "l2 = l1\<lparr>watchers := watchers l2, nwatchers := nwatchers l2\<rparr>" by simp_all
  from l2 have "ios l2 = ios l1" by (cases l2, cases l1) simp
  with l1 have i2: "fd (ios l2 w) = ?d" "events (ios l2 w) = events (ios l w)"
    "pevents (ios l2 w) = pevents (ios l w) OR ev" by simp_all
  from d0 d1 have "unat (word_of_int (?d + 1) :: 32 word) = nat (?d + 1)"
    by (intro unat_of_fd) (simp_all add: INT_MAX_def)
  with le d0 have cap: "nat ?d < unat (nwatchers l2)" by (simp add: word_le_nat_alt)
  have s: "slot l2 (nat ?d) = slot l (nat ?d)"
    using s2 [of "nat ?d"] slot_cong [OF l1(1,2)] by simp
  have p2: "pevents (ios l2 w) \<noteq> 0" unfolding i2 using ev by (rule or_neq_0)
  from register_watcher_inv [OF t2 _ _ _ p2 _ _ g, unfolded i2 s] d0 d1 cap sl e0
  have "watcher_inv l' w \<and> ios l' = ios l2" by auto
  with i2(1) show ?thesis by simp
qed


lemma uv__io_stop_inv:
  assumes inv: "watcher_inv l w" and r: "uv__io_stop l w ev = Inr l'"
  shows "watcher_inv l' w \<and> fd (ios l' w) = fd (ios l w)"
proof (cases "nwatchers l \<le> word_of_int (fd (ios l w))")
  case True
  with r have "l' = l" by (simp add: uv__io_stop_def split: if_splits)
  with inv show ?thesis by simp
next
  case False
  let ?d = "fd (ios l w)"
  let ?i = "nat ?d"
  from inv have t: "table_ok l" and d0: "0 \<le> ?d" and d1: "?d < INT_MAX"
    and sl: "slot l ?i = (if pevents (ios l w) = 0 then None else Some w)"
    and e0: "pevents (ios l w) = 0 \<longrightarrow> events (ios l w) = 0"
    by (simp_all add: watcher_inv_def)
  from d0 have dn: "?d \<noteq> - 1" by simp
  from d0 d1 have "unat (word_of_int ?d :: 32 word) = ?i"
    by (intro unat_of_fd) (simp_all add: INT_MAX_def)
  with False have cap: "?i < unat (nwatchers l)" by (simp add: word_le_nat_alt)
  from table_lookup [OF t cap]
  obtain xs where xs: "watchers l = Some xs" "?i < length xs" "slot l ?i = xs ! ?i"
      "length xs = unat (nwatchers l) + 2" by blast
  define l1 where "l1 = upd_io w (\<lambda>x. x\<lparr>pevents := pevents x AND NOT ev\<rparr>) l"
  have l1: "watchers l1 = watchers l" "nwatchers l1 = nwatchers l" "fd (ios l1 w) = ?d"
    "events (ios l1 w) = events (ios l w)" "pevents (ios l1 w) = pevents (ios l w) AND NOT ev"
    by (simp_all add: l1_def upd_io_def)
  have t1: "table_ok l1" using t by (simp add: table_ok_cong [OF l1(1,2)])
  have s1: "slot l1 ?i = slot l ?i" by (rule slot_cong [OF l1(1,2)])
  show ?thesis
  proof (cases "pevents (ios l1 w) = 0")
    case nz: False
    with l1(5) have p: "pevents (ios l w) \<noteq> 0" by auto
    from r False dn d0 nz have "ios l' = ios l1 \<and> watchers l' = watchers l1 \<and> nwatchers l' = nwatchers l1"
      by (auto simp: uv__io_stop_def Let_def l1_def [symmetric] l1(3) split: if_splits)
    then have i: "ios l' = ios l1" and w: "watchers l' = watchers l1"
      and n: "nwatchers l' = nwatchers l1" by simp_all
    from t1 d0 d1 nz sl p s1 l1(3) show ?thesis
      unfolding watcher_inv_def i slot_cong [OF w n] table_ok_cong [OF w n] by simp
  next
    case z: True
    define l2 where "l2 = l1\<lparr>watcher_queue := removeAll w (watcher_queue l1)\<rparr>"
    have l2: "ios l2 = ios l1" "watchers l2 = Some xs" "nwatchers l2 = nwatchers l"
      by (simp_all add: l2_def l1 xs)
    from r False dn d0 z have r2: "(case xs ! ?i of
          None \<Rightarrow> Inr l2
        | Some v \<Rightarrow> if v \<noteq> w then Inl AssertionFailed
                    else if \<not> 0 < nfds l2 then Inl AssertionFailed
                    else Inr ((upd_io w (\<lambda>x. x\<lparr>events := 0\<rparr>) l2)
                                \<lparr>watchers := Some (xs[?i := None]), nfds := nfds l2 - 1\<rparr>)) = Inr l'"
      using xs(2) l2 l1(3)
      by (auto simp: uv__io_stop_def Let_def l1_def [symmetric] l2_def [symmetric]
            array_get_def array_set_def split: if_splits option.splits)
    show ?thesis
    proof (cases "xs ! ?i")
      case None
      with r2 have l': "l' = l2" by simp
      from None xs(3) sl have "pevents (ios l w) = 0" by (simp split: if_splits)
      with e0 have e: "events (ios l w) = 0" by simp
      from l' l2 l1 xs have i: "ios l' = ios l1" and w: "watchers l' = watchers l1"
        and n: "nwatchers l' = nwatchers l1" by simp_all
      from t1 d0 d1 z None xs(3) s1 l1(3,4) e show ?thesis
        unfolding watcher_inv_def i slot_cong [OF w n] table_ok_cong [OF w n] by simp
    next
      case (Some v)
      with r2 have l': "l' = (upd_io w (\<lambda>x. x\<lparr>events := 0\<rparr>) l2)
                                \<lparr>watchers := Some (xs[?i := None]), nfds := nfds l2 - 1\<rparr>"
        by (simp split: if_splits)
      from l' l2 l1 have i: "fd (ios l' w) = ?d" "pevents (ios l' w) = pevents (ios l1 w)"
          "events (ios l' w) = 0"
        by (simp_all add: upd_io_def)
      from l' l2 xs cap have s: "slot l' ?i = None" by (simp add: slot_def upd_io_def)
      from l' l2 xs have t': "table_ok l'" by (simp add: table_ok_def upd_io_def)
      from t' d0 d1 z s i show ?thesis unfolding watcher_inv_def by simp
    qed
  qed
qed

lemma run_calls_inv:
  assumes ok: "realloc_ok e"
  shows "watcher_inv l w \<Longrightarrow> run_calls e w cs l = Inr l' \<Longrightarrow>
           watcher_inv l' w \<and> fd (ios l' w) = fd (ios l w)"
proof (induction cs arbitrary: l)
  case Nil
  then show ?case by simp
next
  case (Cons c cs)
  show ?case
  proof (cases c)
    case (Start ev)
    with Cons.prems(2) obtain l1 where s: "uv__io_start e l w ev = Inr l1"
      and rest: "run_calls e w cs l1 = Inr l'" by (auto split: sum.splits)
    from uv__io_start_inv [OF ok Cons.prems(1) s] Cons.IH [OF _ rest] show ?thesis by simp
  next
    case (Stop ev)
    with Cons.prems(2) obtain l1 where s: "uv__io_stop l w ev = Inr l1"
      and rest: "run_calls e w cs l1 = Inr l'" by (auto split: sum.splits)
    from uv__io_stop_inv [OF Cons.prems(1) s] Cons.IH [OF _ rest] show ?thesis by simp
  qed
qed

lemma run_calls_append:
  "run_calls e w (cs1 @ cs2) l = Inr l'' \<Longrightarrow>
     \<exists>l'. run_calls e w cs1 l = Inr l' \<and> run_calls e w cs2 l' = Inr l''"
proof (induction cs1 arbitrary: l)
  case Nil
  then show ?case by simp
next
  case (Cons c cs1)
  then show ?case by (cases c) (auto split: sum.splits)
qed

lemma watcher_inv_fresh: "watcher_inv fresh_watcher 3"
  by (simp add: watcher_inv_def fresh_watcher_def upd_io_def zero_loop_def zero_io_def
        table_ok_def slot_def INT_MAX_def)

lemma fresh_started:
  "map_sum id (\<lambda>l. pevents (ios l 3)) (run_calls idle_env 3 [Start UV__POLLIN] fresh_watcher)
     = Inr 1"
  by code_simp

lemma fresh_stopped:
  "map_sum id (\<lambda>l. pevents (ios l 3))
     (run_calls idle_env 3 [Start UV__POLLIN, Start UV__POLLOUT, Stop UV__POLLOUT, Stop UV__POLLIN]
        fresh_watcher) = Inr 0"
  by code_simp

text \<open>
  C6. From a state where the slot of the watcher's descriptor holds the watcher when
  \<^verbatim>\<open>pevents\<close> is not empty and is \<^verbatim>\<open>NULL\<close> when it is, every sequence of calls of
  \<^verbatim>\<open>uv__io_start\<close> and \<^verbatim>\<open>uv__io_stop\<close> on that watcher that returns leaves the descriptor
  as it was and the slot non-\<^verbatim>\<open>NULL\<close> exactly when \<^verbatim>\<open>pevents\<close> is not empty. Every prefix of
  a sequence that returns is itself a sequence that returns, so this holds after every
  prefix.
\<close>

theorem slot_set_iff_interest:
  assumes ok: "realloc_ok e" and inv: "watcher_inv l w"
  shows "(\<forall>cs l'. run_calls e w cs l = Inr l' \<longrightarrow>
            fd (ios l' w) = fd (ios l w)
            \<and> (slot l' (nat (fd (ios l w))) \<noteq> None \<longleftrightarrow> pevents (ios l' w) \<noteq> 0)
            \<and> (slot l' (nat (fd (ios l w))) \<noteq> None \<longrightarrow> slot l' (nat (fd (ios l w))) = Some w)
            \<and> watcher_inv l' w)
    \<and> (\<forall>cs1 cs2 l''. run_calls e w (cs1 @ cs2) l = Inr l'' \<longrightarrow>
            (\<exists>l'. run_calls e w cs1 l = Inr l' \<and> run_calls e w cs2 l' = Inr l''))"
proof (intro conjI allI impI)
  fix cs1 cs2 l''
  assume "run_calls e w (cs1 @ cs2) l = Inr l''"
  then show "\<exists>l'. run_calls e w cs1 l = Inr l' \<and> run_calls e w cs2 l' = Inr l''"
    by (rule run_calls_append)
next
  fix cs l'
  assume r: "run_calls e w cs l = Inr l'"
  from run_calls_inv [OF ok inv r]
  have i: "watcher_inv l' w" and d: "fd (ios l' w) = fd (ios l w)" by simp_all
  from i have s: "slot l' (nat (fd (ios l' w))) = (if pevents (ios l' w) = 0 then None else Some w)"
    by (simp add: watcher_inv_def)
  show "fd (ios l' w) = fd (ios l w)" by (rule d)
  show "watcher_inv l' w" by (rule i)
  show "slot l' (nat (fd (ios l w))) \<noteq> None \<longleftrightarrow> pevents (ios l' w) \<noteq> 0"
    using s d by simp
  assume "slot l' (nat (fd (ios l w))) \<noteq> None"
  with s d show "slot l' (nat (fd (ios l w))) = Some w" by (simp split: if_splits)
qed

theorem slot_set_iff_interest_witness:
  "realloc_ok idle_env \<and> watcher_inv fresh_watcher 3
   \<and> (\<exists>l'. run_calls idle_env 3 [Start UV__POLLIN] fresh_watcher = Inr l'
          \<and> pevents (ios l' 3) = 1 \<and> slot l' 5 = Some 3)
   \<and> (\<exists>l'. run_calls idle_env 3
                 [Start UV__POLLIN, Start UV__POLLOUT, Stop UV__POLLOUT, Stop UV__POLLIN]
                 fresh_watcher = Inr l'
          \<and> pevents (ios l' 3) = 0 \<and> slot l' 5 = None)"
proof -
  note T = slot_set_iff_interest [OF realloc_ok_idle watcher_inv_fresh, THEN conjunct1, rule_format]
  have d: "nat (fd (ios fresh_watcher 3)) = 5" by (simp add: fresh_watcher_def upd_io_def)
  from fresh_started obtain l1 where r1: "run_calls idle_env 3 [Start UV__POLLIN] fresh_watcher = Inr l1"
    and p1: "pevents (ios l1 3) = 1"
    by (cases "run_calls idle_env 3 [Start UV__POLLIN] fresh_watcher") simp_all
  from T [OF r1] p1 have s1: "slot l1 5 = Some 3" unfolding d by simp
  from fresh_stopped obtain l2 where r2: "run_calls idle_env 3
        [Start UV__POLLIN, Start UV__POLLOUT, Stop UV__POLLOUT, Stop UV__POLLIN] fresh_watcher = Inr l2"
    and p2: "pevents (ios l2 3) = 0"
    by (cases "run_calls idle_env 3
        [Start UV__POLLIN, Start UV__POLLOUT, Stop UV__POLLOUT, Stop UV__POLLIN] fresh_watcher")
       simp_all
  from T [OF r2] p2 have s2: "slot l2 5 = None" unfolding d by simp
  from r1 p1 s1 r2 p2 s2 realloc_ok_idle watcher_inv_fresh show ?thesis by blast
qed

end
